theory Spec2Isabelle
  imports Complex_Main
begin

section \<open>Lattice fields and the operations the solver uses\<close>

text \<open>
  A lattice field holds one complex number per site (and internal index) of its grid; it
  is modelled as the list of these numbers. All arithmetic is exact arithmetic over the
  real and complex numbers; rounding of the double precision numbers of the program is
  not modelled.
\<close>

type_synonym field = "complex list"

text \<open>The exceptions of Python that the code can raise. An assertion failure carries the
  line of the \<open>assert\<close> statement that failed, to tell the assertions of a file apart.\<close>

datatype error = AssertionError nat | IndexError | ZeroDivisionError | TypeError | ValueError

text \<open>Modelled from the spec: \<open>g.norm2\<close>, the squared norm of a field.\<close>

definition norm2 :: "field \<Rightarrow> real" where
  "norm2 v = (\<Sum>z\<leftarrow>v. (cmod z)\<^sup>2)"

text \<open>Modelled from the spec: the inner product of two fields, conjugate-linear in the
  first argument.\<close>

definition inner_product :: "field \<Rightarrow> field \<Rightarrow> complex" where
  "inner_product a b = (\<Sum>(x, y)\<leftarrow>zip a b. cnj x * y)"

text \<open>Modelled from the spec: \<open>g.innerProductNorm2(a, b)\<close> returns the inner product of
  \<open>a\<close> and \<open>b\<close> together with the squared norm of \<open>a\<close>.\<close>

definition innerProductNorm2 :: "field \<Rightarrow> field \<Rightarrow> complex \<times> real" where
  "innerProductNorm2 a b = (inner_product a b, norm2 a)"

definition fscale :: "complex \<Rightarrow> field \<Rightarrow> field" where
  "fscale c v = map (\<lambda>z. c * z) v"

definition fadd :: "field \<Rightarrow> field \<Rightarrow> field" where
  "fadd u v = map (\<lambda>(x, y). x + y) (zip u v)"

definition fsub :: "field \<Rightarrow> field \<Rightarrow> field" where
  "fsub u v = map (\<lambda>(x, y). x - y) (zip u v)"

text \<open>Modelled from the spec: \<open>g.axpy_norm2(d, a, x, y)\<close> stores \<open>a * x + y\<close> in \<open>d\<close> and
  returns the squared norm of the result. The model returns the new \<open>d\<close> and the norm.\<close>

definition axpy_norm2 :: "complex \<Rightarrow> field \<Rightarrow> field \<Rightarrow> field \<times> real" where
  "axpy_norm2 a x y = (let d = fadd (fscale a x) y in (d, norm2 d))"

text \<open>Modelled from the spec: \<open>g.orthogonalize(w, basis, ips)\<close>, modified Gram-Schmidt.
  Each basis vector in turn is projected out of \<open>w\<close>; the coefficients are recorded in
  order. The model returns the new \<open>w\<close> and the list of coefficients.\<close>

fun orthogonalize :: "field \<Rightarrow> field list \<Rightarrow> field \<times> complex list" where
  "orthogonalize w [] = (w, [])"
| "orthogonalize w (v # vs) =
     (let ip = inner_product v w;
          (w', ips) = orthogonalize (fsub w (fscale ip v)) vs
      in (w', ip # ips))"

text \<open>\<open>g.lattice(src)\<close>: a new field on the grid of \<open>src\<close>. Its contents are written
  before they are read everywhere below.\<close>

definition lattice :: "field \<Rightarrow> field" where
  "lattice src = replicate (length src) 0"

section \<open>The FGCR solver\<close>

text \<open>A linear operator \<open>mat(dst, src)\<close> writes its result into \<open>dst\<close>; it is the function
  from \<open>src\<close> to the new \<open>dst\<close>. A preconditioner is a factory that takes the operator
  and returns an operator \<open>(dst, src)\<close>, which may read the old \<open>dst\<close> (an inner solver
  starts from it): a function of the operator, the old \<open>dst\<close> and \<open>src\<close>.\<close>

type_synonym linop = "field \<Rightarrow> field"

record fgcr =
  eps :: real
  maxiter :: nat
  restartlen :: nat
  checkres :: bool
  prec :: "(linop \<Rightarrow> field \<Rightarrow> field \<Rightarrow> field) option"
  verbose :: bool

text \<open>The output of \<open>g.message\<close>; the elapsed time that two of the messages print is
  left out.\<close>

datatype message =
    Msg_breakdown nat
  | Msg_res nat nat real real
  | Msg_converged nat
  | Msg_not_converged nat
  | Msg_true_res real real real
  | Msg_computed_res real real
  | Msg_restart

text \<open>
  The objects that \<open>inv\<close> works on: the caller's \<open>psi\<close>, which is updated in place, the
  attribute \<open>self.history\<close>, the printed messages, and the local tensors and fields.
  The tensors are lists of length \<open>restartlen\<close>, \<open>beta\<close> a list of rows.
\<close>

record solver_state =
  psi :: field
  history :: "real list"
  messages :: "message list"
  alpha :: "complex list"
  beta :: "complex list list"
  gamma :: "real list"
  delta :: "complex list"
  r :: field
  mmpsi :: field
  p :: "field list"
  mmp :: "field list"
  r2 :: real
  ssq :: real
  rsq :: real

text \<open>The slice \<open>xs[a:b]\<close> of numpy for \<open>0 \<le> a\<close>, and \<open>np.dot\<close> of two vectors.\<close>

definition slice :: "'a list \<Rightarrow> nat \<Rightarrow> nat \<Rightarrow> 'a list" where
  "slice xs a b = take (b - a) (drop a xs)"

definition np_dot :: "complex list \<Rightarrow> complex list \<Rightarrow> complex" where
  "np_dot xs ys = (\<Sum>(x, y)\<leftarrow>zip xs ys. x * y)"

text \<open>
  The first loop of \<open>update_psi\<close>, \<open>for j in reversed(range(i + 1))\<close>: the call with
  \<open>n = i + 1\<close> runs \<open>j = n - 1, ..., 0\<close>.
\<close>

fun back_substitution ::
  "complex list \<Rightarrow> complex list list \<Rightarrow> real list \<Rightarrow> nat \<Rightarrow> nat \<Rightarrow> complex list \<Rightarrow> complex list"
where
  "back_substitution al be ga i 0 de = de"
| "back_substitution al be ga i (Suc j) de =
     back_substitution al be ga i j
       (de[j := (al ! j - np_dot (slice (be ! j) (j + 1) (i + 1)) (slice de (j + 1) (i + 1)))
                / complex_of_real (ga ! j)])"

text \<open>The second loop, \<open>for j in range(i + 1): psi += delta[j] * p[j]\<close>, over the list of
  the indices still to run.\<close>

fun accumulate :: "complex list \<Rightarrow> field list \<Rightarrow> nat list \<Rightarrow> field \<Rightarrow> field" where
  "accumulate de ps [] ps0 = ps0"
| "accumulate de ps (j # js) ps0 = accumulate de ps js (fadd ps0 (fscale (de ! j) (ps ! j)))"

text \<open>
  \<open>update_psi\<close>. The first index used is \<open>j = i\<close>, in \<open>alpha\<close>, \<open>beta\<close>, \<open>gamma\<close>,
  \<open>delta\<close> and later \<open>p\<close>; an index out of range raises \<open>IndexError\<close>.
\<close>

definition update_psi :: "nat \<Rightarrow> solver_state \<Rightarrow> error + solver_state" where
  "update_psi i s =
     (if i < length (alpha s) \<and> i < length (beta s) \<and> i < length (gamma s)
         \<and> i < length (delta s) \<and> i < length (p s)
      then let de = back_substitution (alpha s) (beta s) (gamma s) i (i + 1) (delta s)
           in Inr (s\<lparr>delta := de, psi := accumulate de (p s) [0..<i + 1] (psi s)\<rparr>)
      else Inl IndexError)"

text \<open>\<open>calc_res\<close>: \<open>mat(mmpsi, psi)\<close>, then \<open>r = -1.0 * mmpsi + src\<close>; returns the squared
  norm of the new \<open>r\<close>.\<close>

definition calc_res :: "linop \<Rightarrow> field \<Rightarrow> solver_state \<Rightarrow> real \<times> solver_state" where
  "calc_res mat src s =
     (let m = mat (psi s); (r', n) = axpy_norm2 (- 1) m src
      in (n, s\<lparr>mmpsi := m, r := r'\<rparr>))"

definition restart :: "fgcr \<Rightarrow> linop \<Rightarrow> field \<Rightarrow> solver_state \<Rightarrow> real \<times> solver_state" where
  "restart self mat src s =
     calc_res mat src
       (if prec self \<noteq> None then s\<lparr>p := map (\<lambda>v. replicate (length v) 0) (p s)\<rparr> else s)"

text \<open>
  The set-up of \<open>inv(psi, src)\<close>, up to the target residual. \<open>np.empty\<close> leaves the
  tensors uninitialised; every entry is written before it is read, and the model starts
  them at zero.
\<close>

definition inv_setup :: "fgcr \<Rightarrow> linop \<Rightarrow> field \<Rightarrow> field \<Rightarrow> error + solver_state" where
  "inv_setup self mat psi0 src =
     (let rlen = restartlen self;
          s0 = \<lparr>psi = psi0, history = [], messages = [],
                alpha = replicate rlen 0, beta = replicate rlen (replicate rlen 0),
                gamma = replicate rlen 0, delta = replicate rlen 0,
                r = src, mmpsi = src,
                p = replicate rlen (lattice src), mmp = replicate rlen (lattice src),
                r2 = 0, ssq = 0, rsq = 0\<rparr>;
          (n, s1) = restart self mat src s0;
          s2 = s1\<lparr>r2 := n, ssq := norm2 src\<rparr>
      in if ssq s2 = 0
         then (if r2 s2 \<noteq> 0
               then Inr (s2\<lparr>ssq := r2 s2, rsq := (eps self)\<^sup>2 * r2 s2\<rparr>)
               else Inl (AssertionError 93))
         else Inr (s2\<lparr>rsq := (eps self)\<^sup>2 * ssq s2\<rparr>))"

text \<open>\<open>g.orthogonalize\<close> writes its coefficients into the view \<open>beta[:, i]\<close>: entry \<open>n\<close>
  of the coefficients goes to \<open>beta[n, i]\<close>.\<close>

definition write_column :: "complex list list \<Rightarrow> nat \<Rightarrow> complex list \<Rightarrow> complex list list" where
  "write_column be i ips =
     map (\<lambda>(n, row). if n < length ips then row[i := ips ! n] else row) (enumerate 0 be)"

definition fdiv :: "field \<Rightarrow> real \<Rightarrow> field" where
  "fdiv v c = map (\<lambda>z. z / complex_of_real c) v"

text \<open>
  The first half of an iteration: the search direction \<open>p[i]\<close> (the preconditioner
  receives the old \<open>p[i]\<close> as its destination, the plain path copies \<open>r\<close>),
  \<open>mmp[i] = mat(p[i])\<close>, its orthogonalisation against \<open>mmp[0:i]\<close>, the inner product with
  \<open>r\<close>, and \<open>gamma[i]\<close>. Returns \<open>ip\<close> and the state.
\<close>

definition krylov_step :: "fgcr \<Rightarrow> linop \<Rightarrow> nat \<Rightarrow> solver_state \<Rightarrow> complex \<times> solver_state" where
  "krylov_step self mat i s =
     (let d = (case prec self of Some P \<Rightarrow> P mat (p s ! i) (r s) | None \<Rightarrow> r s);
          (w, ips) = orthogonalize (mat d) (take i (mmp s));
          (ip, mmp2) = innerProductNorm2 w (r s)
      in (ip, s\<lparr>p := (p s)[i := d], mmp := (mmp s)[i := w],
                 beta := write_column (beta s) i ips,
                 gamma := (gamma s)[i := sqrt mmp2]\<rparr>))"

text \<open>
  The report printed when the loop stops after convergence or at the iteration cap
  (\<open>first\<close> is the first message). Only with \<open>checkres\<close> is the residual recomputed,
  which overwrites \<open>mmpsi\<close> and \<open>r\<close>. The printed timer is left out.
\<close>

definition report :: "fgcr \<Rightarrow> linop \<Rightarrow> field \<Rightarrow> message \<Rightarrow> real \<Rightarrow> solver_state \<Rightarrow> solver_state" where
  "report self mat src first comp_res s =
     (if verbose self
      then let s1 = s\<lparr>messages := messages s @ [first]\<rparr>
           in if checkres self
              then let (n, s2) = calc_res mat src s1; res = n / ssq s2
                   in s2\<lparr>messages := messages s2 @ [Msg_true_res (sqrt comp_res) (sqrt res) (eps self)]\<rparr>
              else s1\<lparr>messages := messages s1 @ [Msg_computed_res (sqrt comp_res) (eps self)]\<rparr>
      else s)"

text \<open>How one pass through the body of the loop ends.\<close>

datatype step = Continue solver_state | Break solver_state | Raise error

text \<open>
  The body of \<open>for k in range(self.maxiter)\<close>. \<open>k % rlen\<close> raises \<open>ZeroDivisionError\<close>
  for \<open>rlen = 0\<close>, and so does the division by \<open>ssq\<close> of two Python floats for
  \<open>ssq = 0\<close>.
\<close>

definition iteration :: "fgcr \<Rightarrow> linop \<Rightarrow> field \<Rightarrow> nat \<Rightarrow> solver_state \<Rightarrow> step" where
  "iteration self mat src k s =
     (let rlen = restartlen self in
      if rlen = 0 then Raise ZeroDivisionError
      else
        let i = k mod rlen;
            reached_maxiter = (k + 1 = maxiter self);
            need_restart = (i + 1 = rlen);
            (ip, s1) = krylov_step self mat i s
        in if gamma s1 ! i = 0
           then Break (s1\<lparr>messages := messages s1 @ [Msg_breakdown i]\<rparr>)
           else
             let a = ip / complex_of_real (gamma s1 ! i);
                 w = fdiv (mmp s1 ! i) (gamma s1 ! i);
                 (r', n) = axpy_norm2 (- a) w (r s1);
                 s2 = s1\<lparr>mmp := (mmp s1)[i := w], alpha := (alpha s1)[i := a],
                         r := r', r2 := n, history := history s1 @ [n],
                         messages := messages s1 @
                           (if verbose self then [Msg_res k i n (rsq s1)] else [])\<rparr>
             in if n \<le> rsq s2 \<or> need_restart \<or> reached_maxiter
                then (case update_psi i s2 of
                        Inl e \<Rightarrow> Raise e
                      | Inr s3 \<Rightarrow>
                          if ssq s3 = 0 then Raise ZeroDivisionError
                          else
                            let comp_res = n / ssq s3
                            in if n \<le> rsq s3
                               then Break (report self mat src (Msg_converged (k + 1)) comp_res s3)
                               else if reached_maxiter
                               then Break (report self mat src (Msg_not_converged (k + 1)) comp_res s3)
                               else if need_restart
                               then let (n', s4) = restart self mat src s3
                                    in Continue (s4\<lparr>r2 := n',
                                         messages := messages s4 @
                                           (if verbose self then [Msg_restart] else [])\<rparr>)
                               else Continue s3)
                else Continue s2)"

text \<open>The loop \<open>for k in range(self.maxiter)\<close>, from iteration \<open>k\<close> on.\<close>

function inv_loop :: "fgcr \<Rightarrow> linop \<Rightarrow> field \<Rightarrow> nat \<Rightarrow> solver_state \<Rightarrow> error + solver_state" where
  "inv_loop self mat src k s =
     (if k < maxiter self
      then (case iteration self mat src k s of
              Continue s' \<Rightarrow> inv_loop self mat src (k + 1) s'
            | Break s' \<Rightarrow> Inr s'
            | Raise e \<Rightarrow> Inl e)
      else Inr s)"
  by pat_completeness auto
termination
  by (relation "measure (\<lambda>(self, mat, src, k, s). maxiter self - k)") auto

text \<open>\<open>inv(psi, src)\<close>, named \<open>inv_fgcr\<close> here: the final state holds the caller's \<open>psi\<close> and \<open>self.history\<close>.\<close>

definition inv_fgcr :: "fgcr \<Rightarrow> linop \<Rightarrow> field \<Rightarrow> field \<Rightarrow> error + solver_state" where
  "inv_fgcr self mat psi0 src =
     (case inv_setup self mat psi0 src of
        Inl e \<Rightarrow> Inl e
      | Inr s \<Rightarrow> inv_loop self mat src 0 s)"

text \<open>
  The state in which iteration \<open>k\<close> of the loop starts, when the loop of \<open>inv\<close> gets
  that far: every iteration before \<open>k\<close> has run and has gone on to the next one.
\<close>

fun state_at :: "fgcr \<Rightarrow> linop \<Rightarrow> field \<Rightarrow> nat \<Rightarrow> solver_state \<Rightarrow> solver_state option" where
  "state_at self mat src 0 s = Some s"
| "state_at self mat src (Suc k) s =
     (case state_at self mat src k s of
        None \<Rightarrow> None
      | Some s' \<Rightarrow>
          if k < maxiter self
          then (case iteration self mat src k s' of Continue s'' \<Rightarrow> Some s'' | _ \<Rightarrow> None)
          else None)"

text \<open>
  Breakdown occurs at iteration \<open>k\<close> of \<open>inv(psi, src)\<close>: the set-up succeeds, the loop
  reaches iteration \<open>k\<close>, and this iteration finds \<open>gamma[i] == 0.0\<close>, prints the
  breakdown message and leaves the loop.
\<close>

definition breakdown_at :: "fgcr \<Rightarrow> linop \<Rightarrow> field \<Rightarrow> field \<Rightarrow> nat \<Rightarrow> bool" where
  "breakdown_at self mat psi0 src k =
     (case inv_setup self mat psi0 src of
        Inl e \<Rightarrow> False
      | Inr s0 \<Rightarrow>
          (case state_at self mat src k s0 of
             None \<Rightarrow> False
           | Some s \<Rightarrow>
               k < maxiter self \<and> restartlen self \<noteq> 0 \<and>
               gamma (snd (krylov_step self mat (k mod restartlen self) s)) ! (k mod restartlen self) = 0))"

section \<open>Coarsening: the links of the coarse operator\<close>

text \<open>
  A grid is known by its local dimensions, all positive; \<open>grid.nd\<close> is their number.
  A site is the list of its coordinates. Fine-grid masks are complex fields with the
  values 0 and 1. A link is a coarse field that holds a square matrix at every site;
  \<open>nbasis\<close> is \<open>otype.shape[0]\<close>.
\<close>

type_synonym coord = "nat list"

record grid =
  ldimensions :: "nat list"

definition nd :: "grid \<Rightarrow> nat" where
  "nd g = length (ldimensions g)"

type_synonym mask = "coord \<Rightarrow> complex"
type_synonym cscal = "coord \<Rightarrow> complex"
type_synonym cvec = "coord \<Rightarrow> nat \<Rightarrow> complex"

record link =
  lgrid :: grid
  nbasis :: nat
  ent :: "coord \<Rightarrow> nat \<Rightarrow> nat \<Rightarrow> complex"

record params =
  hermitian :: bool
  savelinks :: bool
  uselut :: bool

text \<open>The fine operator \<open>fmat\<close>: its application and its hop in direction \<open>mu\<close> with
  displacement \<open>fb\<close>; each writes a destination field and is the function to its new
  value.\<close>

record 'f fine_operator =
  M :: "'f \<Rightarrow> 'f"
  Mdir :: "'f \<Rightarrow> nat \<Rightarrow> int \<Rightarrow> 'f"

text \<open>
  The operations of the library that \<open>create_links\<close> and \<open>comm_links\<close> call, taken as
  parameters: the grid of a fine field, the product of a mask and a fine field, the sum
  of two fine fields, the construction of a lookup table, the three projections, and the
  shift of a link field. \<open>'f\<close> is the type of fine fields, \<open>'l\<close> that of lookup tables.
\<close>

record ('f, 'l) gpt =
  grid_of :: "'f \<Rightarrow> grid"
  fmul :: "mask \<Rightarrow> 'f \<Rightarrow> 'f"
  fplus :: "'f \<Rightarrow> 'f \<Rightarrow> 'f"
  lookup_table :: "grid \<Rightarrow> mask \<Rightarrow> 'l"
  project :: "'f \<Rightarrow> 'f list \<Rightarrow> cvec"
  project_using_lut :: "'f \<Rightarrow> 'f list \<Rightarrow> 'l \<Rightarrow> cvec"
  masked_inner_product :: "mask \<Rightarrow> 'f \<Rightarrow> 'f \<Rightarrow> cscal"
  cshift :: "link \<Rightarrow> nat \<Rightarrow> int \<Rightarrow> link"

text \<open>Modelled from the spec: \<open>gpt.adj\<close>, the conjugate transpose of the matrix at every
  site.\<close>

definition adj :: "link \<Rightarrow> link" where
  "adj L = L\<lparr>ent := (\<lambda>x i j. cnj (ent L x j i))\<rparr>"

text \<open>\<open>L[:, :, :, :, i0:i1, j0:j1] *= -1.0\<close>: the entries in rows \<open>i0 \<le> i < i1\<close> and
  columns \<open>j0 \<le> j < j1\<close> change sign at every site.\<close>

definition negate_block :: "nat \<Rightarrow> nat \<Rightarrow> nat \<Rightarrow> nat \<Rightarrow> link \<Rightarrow> link" where
  "negate_block i0 i1 j0 j1 L =
     L\<lparr>ent := (\<lambda>x i j. if i0 \<le> i \<and> i < i1 \<and> j0 \<le> j \<and> j < j1
                        then - 1 * ent L x i j else ent L x i j)\<rparr>"

text \<open>\<open>dst @= src\<close> on links: the values of \<open>src\<close> are copied into \<open>dst\<close>.\<close>

definition assign :: "link \<Rightarrow> link \<Rightarrow> link" where
  "assign dst src = dst\<lparr>ent := ent src\<rparr>"

text \<open>
  The loop of \<open>comm_links\<close> over \<open>enumerate(dirdisps_forward)\<close>; \<open>q\<close> is the index that
  the source calls \<open>p\<close>. The copy \<open>Atmp\<close> receives the two sign flips, the upper right
  block first.
\<close>

fun comm_loop ::
  "('f, 'l) gpt \<Rightarrow> bool \<Rightarrow> (nat \<times> nat \<times> int) list \<Rightarrow> link list \<Rightarrow> error + link list"
where
  "comm_loop G herm [] A = Inr A"
| "comm_loop G herm ((q, mu, fb) # rest) A =
     (let p_other = q + 4;
          shift_fb = fb * - 1
      in if length A \<le> q then Inl IndexError
         else
           let Atmp = A ! q
           in case (if \<not> herm
                    then (let n = nbasis (A ! 0)
                          in if n mod 2 = 0
                             then let nb = n div 2
                                  in Inr (negate_block nb n 0 nb (negate_block 0 nb nb n Atmp))
                             else Inl (AssertionError 159))
                    else Inr Atmp) of
                Inl e \<Rightarrow> Inl e
              | Inr Atmp' \<Rightarrow>
                  if length A \<le> p_other then Inl IndexError
                  else comm_loop G herm rest
                         (A[p_other := assign (A ! p_other) (adj (cshift G Atmp' mu shift_fb))]))"

text \<open>\<open>comm_links\<close>; \<open>A\<close> is a list by its type, so the first assertion holds.\<close>

definition comm_links ::
  "('f, 'l) gpt \<Rightarrow> link list \<Rightarrow> (nat \<times> int) list \<Rightarrow> bool \<Rightarrow> error + link list"
where
  "comm_links G A dirdisps_forward herm =
     (if length A = 2 * length dirdisps_forward + 1
      then comm_loop G herm (enumerate 0 dirdisps_forward) A
      else Inl (AssertionError 152))"

text \<open>
  The block size \<open>numpy.array(f_grid.ldimensions) / numpy.array(c_grid.ldimensions)\<close>, an
  array of floats, here of rationals; arrays of different lengths cannot be divided
  (grids of one dimension, which numpy would broadcast, are left out). \<open>//\<close> and \<open>%\<close>
  are the floored division and its remainder.
\<close>

definition block_size :: "grid \<Rightarrow> grid \<Rightarrow> error + rat list" where
  "block_size f_grid c_grid =
     (if length (ldimensions f_grid) = length (ldimensions c_grid)
      then Inr (map (\<lambda>(a, b). rat_of_nat a / rat_of_nat b)
                  (zip (ldimensions f_grid) (ldimensions c_grid)))
      else Inl ValueError)"

definition np_floordiv :: "rat \<Rightarrow> rat \<Rightarrow> int" where
  "np_floordiv a b = \<lfloor>a / b\<rfloor>"

definition np_mod :: "rat \<Rightarrow> rat \<Rightarrow> rat" where
  "np_mod a b = a - rat_of_int \<lfloor>a / b\<rfloor> * b"

definition make_mask :: "(coord \<Rightarrow> bool) \<Rightarrow> mask" where
  "make_mask b = (\<lambda>x. if b x then 1 else 0)"

text \<open>\<open>numpy.sum(block_cb, axis=1) % 2 == 0\<close> at the site \<open>x\<close>.\<close>

definition block_even :: "rat list \<Rightarrow> coord \<Rightarrow> bool" where
  "block_even block x =
     ((\<Sum>(c, b)\<leftarrow>zip x block. np_floordiv (rat_of_nat c) b) mod 2 = 0)"

text \<open>The columns \<open>mu\<close> of \<open>dirmasks_forward_np\<close> and \<open>dirmasks_backward_np\<close>.\<close>

definition forward_np :: "rat list \<Rightarrow> nat \<Rightarrow> coord \<Rightarrow> bool" where
  "forward_np block mu x = (np_mod (rat_of_nat (x ! mu)) (block ! mu) = block ! mu - 1)"

definition backward_np :: "rat list \<Rightarrow> nat \<Rightarrow> coord \<Rightarrow> bool" where
  "backward_np block mu x = (np_mod (rat_of_nat (x ! mu)) (block ! mu) = 0)"

text \<open>
  The loop \<open>for mu in dirs\<close> that fills the boundary masks. \<open>dirmasks[mu]\<close>,
  \<open>dirmasks[mu + 4]\<close> and the column \<open>mu\<close> of the numpy arrays, which have \<open>ndim\<close>
  columns, raise \<open>IndexError\<close> when the index is out of range.
\<close>

fun fill_dirmasks :: "nat \<Rightarrow> rat list \<Rightarrow> nat list \<Rightarrow> mask list \<Rightarrow> error + mask list" where
  "fill_dirmasks ndim block [] dirmasks = Inr dirmasks"
| "fill_dirmasks ndim block (mu # rest) dirmasks =
     (if length dirmasks \<le> mu \<or> ndim \<le> mu then Inl IndexError
      else
        let dirmasks1 = dirmasks[mu := make_mask (forward_np block mu)]
        in if length dirmasks1 \<le> mu + 4 then Inl IndexError
           else fill_dirmasks ndim block rest
                  (dirmasks1[mu + 4 := make_mask (backward_np block mu)]))"

text \<open>
  \<open>A[q][:, :, :, :, :, i] = vec[:]\<close> for a coarse vector field with \<open>n\<close> components, and
  \<open>A[q][:, :, :, :, j, i] = scal[:]\<close>. The list \<open>A\<close> and the tensor indices are checked;
  a vector whose length is not the number of rows does not fit.
\<close>

definition set_column :: "link list \<Rightarrow> nat \<Rightarrow> nat \<Rightarrow> cvec \<Rightarrow> nat \<Rightarrow> error + link list" where
  "set_column A q i vec n =
     (if length A \<le> q then Inl IndexError
      else if nbasis (A ! q) \<le> i then Inl IndexError
      else if nbasis (A ! q) \<noteq> n then Inl ValueError
      else Inr (A[q := (A ! q)\<lparr>ent := (\<lambda>x j' i'. if i' = i \<and> j' < n then vec x j'
                                                else ent (A ! q) x j' i')\<rparr>]))"

definition set_entry :: "link list \<Rightarrow> nat \<Rightarrow> nat \<Rightarrow> nat \<Rightarrow> cscal \<Rightarrow> error + link list" where
  "set_entry A q j i scal =
     (if length A \<le> q then Inl IndexError
      else if nbasis (A ! q) \<le> j \<or> nbasis (A ! q) \<le> i then Inl IndexError
      else Inr (A[q := (A ! q)\<lparr>ent := (\<lambda>x j' i'. if i' = i \<and> j' = j then scal x
                                                else ent (A ! q) x j' i')\<rparr>]))"

text \<open>The comprehension \<open>[fmat.Mdir(Mvr[q], vr, mu, fb) for q, (mu, fb) in
  enumerate(dirdisps)]\<close>.\<close>

fun apply_hop :: "'f fine_operator \<Rightarrow> 'f \<Rightarrow> (nat \<times> nat \<times> int) list \<Rightarrow> 'f list \<Rightarrow> 'f list" where
  "apply_hop fmat vr [] Mvr = Mvr"
| "apply_hop fmat vr ((q, mu, fb) # rest) Mvr = apply_hop fmat vr rest (Mvr[q := Mdir fmat vr mu fb])"

text \<open>The loop \<open>for j, vl in enumerate(basis)\<close> of the path without lookup tables.\<close>

fun coarsen_masked ::
  "('f, 'l) gpt \<Rightarrow> mask \<Rightarrow> 'f \<Rightarrow> nat \<Rightarrow> nat \<Rightarrow> (nat \<times> 'f) list \<Rightarrow> link list \<Rightarrow> error + link list"
where
  "coarsen_masked G msk Mvr_q q i [] A = Inr A"
| "coarsen_masked G msk Mvr_q q i ((j, vl) # rest) A =
     (case set_entry A q j i (masked_inner_product G msk vl Mvr_q) of
        Inl e \<Rightarrow> Inl e
      | Inr A' \<Rightarrow> coarsen_masked G msk Mvr_q q i rest A')"

text \<open>The loop \<open>for q, (mu, fb) in enumerate(dirdisps)\<close> that coarsens the hops of one
  basis vector.\<close>

fun coarsen_hops ::
  "('f, 'l) gpt \<Rightarrow> bool \<Rightarrow> 'f list \<Rightarrow> mask list \<Rightarrow> 'l list \<Rightarrow> 'f list \<Rightarrow> nat
     \<Rightarrow> (nat \<times> nat \<times> int) list \<Rightarrow> link list \<Rightarrow> error + link list"
where
  "coarsen_hops G lut basis dirmasks dirluts Mvr i [] A = Inr A"
| "coarsen_hops G lut basis dirmasks dirluts Mvr i ((q, mu, fb) # rest) A =
     (case (if lut
            then set_column A q i (project_using_lut G (Mvr ! q) basis (dirluts ! q)) (length basis)
            else coarsen_masked G (dirmasks ! q) (Mvr ! q) q i (enumerate 0 basis) A) of
        Inl e \<Rightarrow> Inl e
      | Inr A' \<Rightarrow> coarsen_hops G lut basis dirmasks dirluts Mvr i rest A')"

text \<open>
  The body of \<open>for i, vr in enumerate(basis)\<close>. The diagonal term applies the operator to
  \<open>vr\<close> restricted to the even blocks and to the odd blocks and keeps the result on the
  same blocks.
\<close>

definition coarsen_vector ::
  "('f, 'l) gpt \<Rightarrow> 'f fine_operator \<Rightarrow> bool \<Rightarrow> 'f list \<Rightarrow> (nat \<times> int) list \<Rightarrow> mask list
     \<Rightarrow> 'l list \<Rightarrow> 'l \<Rightarrow> mask \<Rightarrow> mask \<Rightarrow> nat \<Rightarrow> nat \<Rightarrow> 'f \<Rightarrow> link list \<times> 'f list
     \<Rightarrow> error + link list \<times> 'f list"
where
  "coarsen_vector G fmat lut basis dirdisps dirmasks dirluts fulllut blockevenmask blockoddmask
       selflink i vr st =
     (let Mvr = apply_hop fmat vr (enumerate 0 dirdisps) (snd st)
      in case coarsen_hops G lut basis dirmasks dirluts Mvr i (enumerate 0 dirdisps) (fst st) of
           Inl e \<Rightarrow> Inl e
         | Inr A1 \<Rightarrow>
             let tmp = fplus G (fmul G blockevenmask (M fmat (fmul G blockevenmask vr)))
                               (fmul G blockoddmask (M fmat (fmul G blockoddmask vr)));
                 selfproj = (if lut then project_using_lut G tmp basis fulllut
                             else project G tmp basis)
             in (case set_column A1 selflink i selfproj (length basis) of
                   Inl e \<Rightarrow> Inl e
                 | Inr A2 \<Rightarrow> Inr (A2, Mvr)))"

fun basis_loop ::
  "('f, 'l) gpt \<Rightarrow> 'f fine_operator \<Rightarrow> bool \<Rightarrow> 'f list \<Rightarrow> (nat \<times> int) list \<Rightarrow> mask list
     \<Rightarrow> 'l list \<Rightarrow> 'l \<Rightarrow> mask \<Rightarrow> mask \<Rightarrow> nat \<Rightarrow> (nat \<times> 'f) list \<Rightarrow> link list \<times> 'f list
     \<Rightarrow> error + link list \<times> 'f list"
where
  "basis_loop G fmat lut basis dirdisps dirmasks dirluts fulllut em om selflink [] st = Inr st"
| "basis_loop G fmat lut basis dirdisps dirmasks dirluts fulllut em om selflink ((i, vr) # rest) st =
     (case coarsen_vector G fmat lut basis dirdisps dirmasks dirluts fulllut em om selflink i vr st of
        Inl e \<Rightarrow> Inl e
      | Inr st' \<Rightarrow>
          basis_loop G fmat lut basis dirdisps dirmasks dirluts fulllut em om selflink rest st')"

text \<open>The directions that are coarsened, for a fine grid of \<open>n\<close> dimensions.\<close>

definition dirs_of :: "nat \<Rightarrow> nat list" where
  "dirs_of n = (if n = 5 then [1, 2, 3, 4] else [0, 1, 2, 3])"

text \<open>
  The masks of \<open>create_links\<close>: \<open>onemask\<close>, \<open>blockevenmask\<close>, \<open>blockoddmask\<close> and the
  filled \<open>dirmasks\<close>, which start as \<open>nhops = 8\<close> new fields.
\<close>

definition setup_masks :: "grid \<Rightarrow> grid \<Rightarrow> error + mask \<times> mask \<times> mask \<times> mask list" where
  "setup_masks f_grid c_grid =
     (let dirs = dirs_of (nd f_grid);
          nhops = length (zip (dirs @ dirs) (replicate 4 (1::int) @ replicate 4 (- 1)));
          onemask = (\<lambda>x. 1)
      in case block_size f_grid c_grid of
           Inl e \<Rightarrow> Inl e
         | Inr block \<Rightarrow>
             let blockevenmask = make_mask (block_even block);
                 blockoddmask = (\<lambda>x. onemask x - blockevenmask x)
             in (case fill_dirmasks (nd f_grid) block dirs (replicate nhops (\<lambda>x. 0)) of
                   Inl e \<Rightarrow> Inl e
                 | Inr dirmasks \<Rightarrow> Inr (onemask, blockevenmask, blockoddmask, dirmasks)))"

text \<open>
  \<open>create_links\<close> from its first line to the end of the loop over the basis. The
  lookup tables exist only with \<open>uselut\<close>; without it they are not read. The scratch
  fields \<open>Mvr\<close> are written before they are read. Timers and messages are left out.
\<close>

definition compute_links ::
  "('f, 'l) gpt \<Rightarrow> link list \<Rightarrow> 'f fine_operator \<Rightarrow> 'f list \<Rightarrow> params \<Rightarrow> error + link list"
where
  "compute_links G A fmat basis prm =
     (if hermitian prm \<and> \<not> savelinks prm then Inl (AssertionError 30)
      else if basis = [] then Inl IndexError
      else if A = [] then Inl IndexError
      else
        let f_grid = grid_of G (basis ! 0);
            c_grid = lgrid (A ! 0);
            dirs = dirs_of (nd f_grid);
            dirdisps_full = zip (dirs @ dirs) (replicate 4 1 @ replicate 4 (- 1));
            dirdisps_forward = zip dirs (replicate 4 1);
            nhops = length dirdisps_full;
            selflink = nhops;
            Mvr = replicate nhops (basis ! 0)
        in case setup_masks f_grid c_grid of
             Inl e \<Rightarrow> Inl e
           | Inr (onemask, blockevenmask, blockoddmask, dirmasks) \<Rightarrow>
               let dirdisps = (if savelinks prm then dirdisps_forward else dirdisps_full);
                   dirluts = (if uselut prm
                              then map (\<lambda>(q, mu, fb). lookup_table G c_grid (dirmasks ! q))
                                     (enumerate 0 dirdisps)
                              else []);
                   fulllut = lookup_table G c_grid onemask
               in (case basis_loop G fmat (uselut prm) basis dirdisps dirmasks dirluts fulllut
                          blockevenmask blockoddmask selflink (enumerate 0 basis) (A, Mvr) of
                     Inl e \<Rightarrow> Inl e
                   | Inr st \<Rightarrow> Inr (fst st)))"

text \<open>\<open>create_links(A, fmat, basis, params)\<close>: the links are computed, and with
  \<open>savelinks\<close> the backward links are then derived by \<open>comm_links\<close>.\<close>

definition create_links ::
  "('f, 'l) gpt \<Rightarrow> link list \<Rightarrow> 'f fine_operator \<Rightarrow> 'f list \<Rightarrow> params \<Rightarrow> error + link list"
where
  "create_links G A fmat basis prm =
     (case compute_links G A fmat basis prm of
        Inl e \<Rightarrow> Inl e
      | Inr A' \<Rightarrow>
          if savelinks prm
          then comm_links G A' (zip (dirs_of (nd (grid_of G (basis ! 0)))) (replicate 4 1))
                 (hermitian prm)
          else Inr A')"

text \<open>
  A call of \<open>create_links\<close>, whose four parameters are all required: a call that does
  not supply \<open>params\<close> raises \<open>TypeError\<close> before the body runs.
\<close>

definition call_create_links ::
  "('f, 'l) gpt \<Rightarrow> link list \<Rightarrow> 'f fine_operator \<Rightarrow> 'f list \<Rightarrow> params option
     \<Rightarrow> error + link list"
where
  "call_create_links G A fmat basis prm =
     (case prm of
        None \<Rightarrow> Inl TypeError
      | Some q \<Rightarrow> create_links G A fmat basis q)"

text \<open>\<open>recreate_links(A, fmat, basis)\<close> calls \<open>create_links(A, fmat, basis)\<close>.\<close>

definition recreate_links ::
  "('f, 'l) gpt \<Rightarrow> link list \<Rightarrow> 'f fine_operator \<Rightarrow> 'f list \<Rightarrow> error + link list"
where
  "recreate_links G A fmat basis = call_create_links G A fmat basis None"

text \<open>
  A small instance used to evaluate the solver: the singular operator that keeps the first
  entry of a two-entry field and clears the second, a cycle length of two, and a state of
  \<open>update_psi\<close> after two inner iterations of a cycle.
\<close>

definition example_fgcr :: fgcr where
  "example_fgcr = \<lparr>eps = 1 / 10, maxiter = 5, restartlen = 2, checkres = True,
                    prec = None, verbose = False\<rparr>"

definition example_mat :: linop where
  "example_mat v = [v ! 0, 0]"

definition example_state :: solver_state where
  "example_state = \<lparr>psi = [5], history = [], messages = [],
          alpha = [1, 2], beta = [[0, 1], [0, 0]], gamma = [1, 2], delta = [0, 0],
          r = [0], mmpsi = [0], p = [[1], [3]], mmp = [[0], [0]],
          r2 = 0, ssq = 1, rsq = 0\<rparr>"

text \<open>
  The sign flip of the non-hermitian case in the words of the specification: the upper
  right and the lower left quadrant blocks of size \<open>n div 2\<close> of the matrix at every site
  are negated, each once; the diagonal blocks are kept.
\<close>

definition flip_quadrants :: "nat \<Rightarrow> link \<Rightarrow> link" where
  "flip_quadrants n L =
     L\<lparr>ent := (\<lambda>x i j. if (i < n div 2 \<and> n div 2 \<le> j \<and> j < n) \<or> (n div 2 \<le> i \<and> i < n \<and> j < n div 2)
                        then - ent L x i j else ent L x i j)\<rparr>"

text \<open>The list of links after column \<open>i\<close> of link \<open>q\<close> has received the first \<open>n\<close>
  components of a coarse vector field.\<close>

definition column_written :: "link list \<Rightarrow> nat \<Rightarrow> nat \<Rightarrow> cvec \<Rightarrow> nat \<Rightarrow> link list" where
  "column_written A q i vec n =
     A[q := (A ! q)\<lparr>ent := (\<lambda>x j' i'. if i' = i \<and> j' < n then vec x j' else ent (A ! q) x j' i')\<rparr>]"

text \<open>
  A small instance of the library, with complex numbers as fine fields and masks as
  lookup tables, an operator, and nine empty links.
\<close>

definition example_gpt :: "nat list \<Rightarrow> (complex, mask) gpt" where
  "example_gpt dims =
     \<lparr>grid_of = (\<lambda>f. \<lparr>ldimensions = dims\<rparr>),
      fmul = (\<lambda>m f. m [] * f),
      fplus = (\<lambda>f g. f + g),
      lookup_table = (\<lambda>g m. m),
      project = (\<lambda>F b x j. cnj (b ! j) * F),
      project_using_lut = (\<lambda>F b l x j. l x * cnj (b ! j) * F),
      masked_inner_product = (\<lambda>m a b x. m x * cnj a * b),
      cshift = (\<lambda>L mu d. L)\<rparr>"

definition example_fmat :: "complex fine_operator" where
  "example_fmat = \<lparr>M = (\<lambda>f. 2 * f), Mdir = (\<lambda>f mu fb. f)\<rparr>"

definition example_links :: "nat list \<Rightarrow> nat \<Rightarrow> link list" where
  "example_links dims n =
     replicate 9 \<lparr>lgrid = \<lparr>ldimensions = dims\<rparr>, nbasis = n, ent = (\<lambda>x i j. 0)\<rparr>"

text \<open>
  A second instance for the derivation of the backward links: the periodic shift of a
  link field, whose value at the site \<open>x\<close> is that of the argument at \<open>x\<close> moved by \<open>d\<close> in
  direction \<open>mu\<close>, and nine links of two by two matrices whose entries differ from site
  to site, from row to column and from link to link.
\<close>

definition example_shift_gpt :: "(complex, mask) gpt" where
  "example_shift_gpt =
     (example_gpt [4, 4, 4, 4])
       \<lparr>cshift := (\<lambda>L mu d. L\<lparr>ent := (\<lambda>x. ent L
            (x[mu := nat ((int (x ! mu) + d) mod int (ldimensions (lgrid L) ! mu))]))\<rparr>)\<rparr>"

definition example_dense_links :: "link list" where
  "example_dense_links =
     map (\<lambda>q. \<lparr>lgrid = \<lparr>ldimensions = [2, 2, 2, 2]\<rparr>, nbasis = 2,
               ent = (\<lambda>x i j. Complex (real (x ! 0 + 10 * i + q)) (real (j + 1)))\<rparr>) [0..<9]"

section \<open>Properties of the solver\<close>

lemma axpy_minus_one: "fadd (fscale (- 1) x) y = fsub y x"
proof (induction x arbitrary: y)
  case Nil
  show ?case by (simp add: fadd_def fscale_def fsub_def)
next
  case (Cons a x)
  then show ?case by (cases y) (simp_all add: fadd_def fscale_def fsub_def)
qed

lemma calc_res_eq:
  "calc_res mat src s =
     (norm2 (fsub src (mat (psi s))), s\<lparr>mmpsi := mat (psi s), r := fsub src (mat (psi s))\<rparr>)"
  by (simp add: calc_res_def axpy_norm2_def Let_def axpy_minus_one)

lemma update_psi_not_assert: "update_psi i s \<noteq> Inl (AssertionError 93)"
  by (simp add: update_psi_def Let_def)

lemma iteration_not_assert: "iteration self mat src k s \<noteq> Raise (AssertionError 93)"
  by (auto simp: iteration_def Let_def update_psi_def split: prod.splits sum.splits)

lemma inv_loop_not_assert: "inv_loop self mat src k s \<noteq> Inl (AssertionError 93)"
proof (induction self mat src k s rule: inv_loop.induct)
  case (1 self mat src k s)
  show ?case
  proof (cases "k < maxiter self")
    case True
    then show ?thesis using 1 iteration_not_assert[of self mat src k s]
      by (subst inv_loop.simps) (auto split: step.splits)
  next
    case False
    then show ?thesis by (subst inv_loop.simps) simp
  qed
qed

text \<open>
  C4. Let \<open>r0\<close> be the squared norm of the initial residual \<open>src - mat(psi)\<close>. The call
  \<open>inv(psi, src)\<close> raises an assertion failure exactly when both the squared norm of
  \<open>src\<close> and \<open>r0\<close> are zero, and this failure is that of the set-up. In every other case
  the set-up completes, with the target \<open>rsq = eps\<^sup>2 * ||src||\<^sup>2\<close> when \<open>||src||\<^sup>2\<close> is not zero
  and \<open>rsq = eps\<^sup>2 * r0\<close> when it is.
\<close>

theorem inv_setup_target:
  fixes self mat psi0 src
  defines "r0 \<equiv> norm2 (fsub src (mat psi0))"
  shows "(inv_fgcr self mat psi0 src = Inl (AssertionError 93) \<longleftrightarrow> norm2 src = 0 \<and> r0 = 0)
       \<and> (inv_setup self mat psi0 src = Inl (AssertionError 93) \<longleftrightarrow> norm2 src = 0 \<and> r0 = 0)
       \<and> (\<not> (norm2 src = 0 \<and> r0 = 0) \<longrightarrow>
            (\<exists>s. inv_setup self mat psi0 src = Inr s
                \<and> ssq s = (if norm2 src \<noteq> 0 then norm2 src else r0)
                \<and> rsq s = (if norm2 src \<noteq> 0 then (eps self)\<^sup>2 * norm2 src
                           else (eps self)\<^sup>2 * r0)))"
  unfolding r0_def inv_fgcr_def
  using inv_loop_not_assert[of self mat src 0]
  by (auto simp: inv_setup_def restart_def calc_res_eq Let_def split: sum.splits)

theorem inv_setup_target_witness:
  "\<not> (norm2 [2] = 0 \<and> norm2 (fsub [2] ((\<lambda>x. x) [0])) = 0)
   \<and> (\<exists>s. inv_setup \<lparr>eps = 1 / 2, maxiter = 3, restartlen = 2, checkres = True,
                      prec = None, verbose = False\<rparr> (\<lambda>x. x) [0] [2] = Inr s
          \<and> ssq s = 4 \<and> rsq s = 1)"
  using inv_setup_target [of
      "\<lparr>eps = 1 / 2, maxiter = 3, restartlen = 2, checkres = True, prec = None, verbose = False\<rparr>"
      "\<lambda>x. x" "[0]" "[2]"]
  by (simp add: norm2_def fsub_def power2_eq_square)

lemma back_substitution_length: "length (back_substitution al be ga i n de) = length de"
  by (induction n arbitrary: de) simp_all

lemma back_substitution_above:
  "n \<le> l \<Longrightarrow> back_substitution al be ga i n de ! l = de ! l"
  by (induction n arbitrary: de) simp_all

lemma slice_cong:
  assumes "length xs = length ys" and "\<And>l. a \<le> l \<Longrightarrow> l < length xs \<Longrightarrow> xs ! l = ys ! l"
  shows "slice xs a b = slice ys a b"
proof -
  have "drop a xs = drop a ys"
    using assms by (intro nth_equalityI) simp_all
  then show ?thesis by (simp add: slice_def)
qed

lemma np_dot_slices:
  assumes "i < length row" and "i < length de" and "j \<le> i"
  shows "np_dot (slice row (j + 1) (i + 1)) (slice de (j + 1) (i + 1))
         = (\<Sum>l = j + 1..i. row ! l * de ! l)"
proof -
  let ?xs = "slice row (j + 1) (i + 1)" and ?ys = "slice de (j + 1) (i + 1)"
  have len: "length (zip ?xs ?ys) = i - j"
    using assms by (simp add: slice_def)
  have "np_dot ?xs ?ys = (\<Sum>k = 0..<i - j. (map (\<lambda>(x, y). x * y) (zip ?xs ?ys)) ! k)"
    unfolding np_dot_def using len by (simp add: sum_list_sum_nth)
  also have "\<dots> = (\<Sum>k = 0..<i - j. row ! (j + 1 + k) * de ! (j + 1 + k))"
    using assms len by (intro sum.cong) (simp_all add: slice_def)
  also have "\<dots> = (\<Sum>l = j + 1..<i + 1. row ! l * de ! l)"
    using assms sum.shift_bounds_nat_ivl[of "\<lambda>l. row ! l * de ! l" 0 "j + 1" "i - j"]
    by (simp add: add.commute)
  also have "\<dots> = (\<Sum>l = j + 1..i. row ! l * de ! l)"
    by (simp add: atLeastLessThanSuc_atLeastAtMost)
  finally show ?thesis .
qed

lemma back_substitution_entry:
  "j < n \<Longrightarrow> n \<le> length de \<Longrightarrow>
   back_substitution al be ga i n de ! j =
     (al ! j - np_dot (slice (be ! j) (j + 1) (i + 1))
                 (slice (back_substitution al be ga i n de) (j + 1) (i + 1)))
     / complex_of_real (ga ! j)"
proof (induction n arbitrary: de)
  case 0
  then show ?case by simp
next
  case (Suc m)
  let ?v = "(al ! m - np_dot (slice (be ! m) (m + 1) (i + 1)) (slice de (m + 1) (i + 1)))
              / complex_of_real (ga ! m)"
  let ?R = "back_substitution al be ga i m (de[m := ?v])"
  show ?case
  proof (cases "j < m")
    case True
    with Suc show ?thesis by simp
  next
    case False
    with Suc.prems have jm: "j = m" by simp
    have "slice ?R (m + 1) (i + 1) = slice de (m + 1) (i + 1)"
      by (rule slice_cong) (simp_all add: back_substitution_length back_substitution_above)
    moreover have "?R ! m = ?v"
      using Suc.prems by (simp add: back_substitution_above)
    ultimately show ?thesis using jm by simp
  qed
qed

lemma accumulate_pointwise:
  "\<forall>j\<in>set js. length (ps ! j) = length ps0 \<Longrightarrow>
   length (accumulate de ps js ps0) = length ps0 \<and>
   (\<forall>x<length ps0. accumulate de ps js ps0 ! x = ps0 ! x + (\<Sum>j\<leftarrow>js. de ! j * ps ! j ! x))"
proof (induction js arbitrary: ps0)
  case Nil
  then show ?case by simp
next
  case (Cons j js)
  let ?q = "fadd ps0 (fscale (de ! j) (ps ! j))"
  have lj: "length (ps ! j) = length ps0"
    using Cons.prems by simp
  have lq: "length ?q = length ps0"
    using lj by (simp add: fadd_def fscale_def)
  have "\<forall>j'\<in>set js. length (ps ! j') = length ?q"
    using Cons.prems lq by simp
  from Cons.IH[OF this] lq lj
  show ?case by (auto simp: fadd_def fscale_def algebra_simps)
qed

text \<open>
  C1. For an index \<open>i\<close> inside the tensors, with \<open>gamma[j]\<close> not zero for \<open>j \<le> i\<close> and
  every \<open>p[j]\<close> on the grid of \<open>psi\<close>, \<open>update_psi\<close> returns normally with
  \<open>delta[j] = (alpha[j] - sum_{l=j+1..i} beta[j,l] * delta[l]) / gamma[j]\<close> for every
  \<open>j \<le> i\<close>, which is the triangular system
  \<open>gamma[j] * delta[j] = alpha[j] - sum_{l>j} beta[j,l] * delta[l]\<close>; the entries of
  \<open>delta\<close> above \<open>i\<close> are not written; \<open>psi\<close> becomes
  \<open>psi + sum_{j=0..i} delta[j] * p[j]\<close>; \<open>alpha\<close>, \<open>beta\<close>, \<open>gamma\<close> and \<open>p\<close> are unchanged.
\<close>

theorem update_psi_back_substitution:
  assumes idx: "i < length (alpha s)" "i < length (beta s)" "i < length (gamma s)"
               "i < length (delta s)" "i < length (p s)"
      and rows: "\<forall>j\<le>i. i < length (beta s ! j)"
      and nz: "\<forall>j\<le>i. gamma s ! j \<noteq> 0"
      and grid: "\<forall>j\<le>i. length (p s ! j) = length (psi s)"
  shows "\<exists>s'. update_psi i s = Inr s'
     \<and> (\<forall>j\<le>i. delta s' ! j =
           (alpha s ! j - (\<Sum>l = j + 1..i. beta s ! j ! l * delta s' ! l))
             / complex_of_real (gamma s ! j))
     \<and> (\<forall>j\<le>i. complex_of_real (gamma s ! j) * delta s' ! j =
           alpha s ! j - (\<Sum>l = j + 1..i. beta s ! j ! l * delta s' ! l))
     \<and> (\<forall>j>i. delta s' ! j = delta s ! j) \<and> length (delta s') = length (delta s)
     \<and> length (psi s') = length (psi s)
     \<and> (\<forall>x<length (psi s). psi s' ! x = psi s ! x + (\<Sum>j = 0..i. delta s' ! j * p s ! j ! x))
     \<and> alpha s' = alpha s \<and> beta s' = beta s \<and> gamma s' = gamma s \<and> p s' = p s"
proof -
  define de where "de = back_substitution (alpha s) (beta s) (gamma s) i (i + 1) (delta s)"
  define s' where "s' = s\<lparr>delta := de, psi := accumulate de (p s) [0..<i + 1] (psi s)\<rparr>"
  have run: "update_psi i s = Inr s'"
    using idx by (simp add: update_psi_def Let_def s'_def de_def)
  have lde: "length de = length (delta s)"
    by (simp add: de_def back_substitution_length)
  have eq: "de ! j = (alpha s ! j - (\<Sum>l = j + 1..i. beta s ! j ! l * de ! l))
                      / complex_of_real (gamma s ! j)" if "j \<le> i" for j
  proof -
    have "de ! j = (alpha s ! j - np_dot (slice (beta s ! j) (j + 1) (i + 1)) (slice de (j + 1) (i + 1)))
                     / complex_of_real (gamma s ! j)"
      unfolding de_def using that idx by (intro back_substitution_entry) simp_all
    moreover have "np_dot (slice (beta s ! j) (j + 1) (i + 1)) (slice de (j + 1) (i + 1))
                   = (\<Sum>l = j + 1..i. beta s ! j ! l * de ! l)"
      using that rows idx lde by (intro np_dot_slices) simp_all
    ultimately show ?thesis by simp
  qed
  have tri: "complex_of_real (gamma s ! j) * de ! j
               = alpha s ! j - (\<Sum>l = j + 1..i. beta s ! j ! l * de ! l)" if "j \<le> i" for j
    using eq[OF that] nz that by simp
  have above: "de ! j = delta s ! j" if "i < j" for j
    unfolding de_def using that by (simp add: back_substitution_above)
  have acc: "length (psi s') = length (psi s) \<and>
     (\<forall>x<length (psi s). psi s' ! x = psi s ! x + (\<Sum>j\<leftarrow>[0..<i + 1]. de ! j * p s ! j ! x))"
  proof -
    have "\<forall>j\<in>set [0..<i + 1]. length (p s ! j) = length (psi s)"
      using grid by auto
    moreover have "psi s' = accumulate de (p s) [0..<i + 1] (psi s)"
      by (simp add: s'_def)
    ultimately show ?thesis
      using accumulate_pointwise[of "[0..<i + 1]" "p s" "psi s" de] by presburger
  qed
  have sums: "(\<Sum>j\<leftarrow>[0..<i + 1]. de ! j * p s ! j ! x) = (\<Sum>j = 0..i. de ! j * p s ! j ! x)" for x
  proof -
    have "set [0..<i + 1] = {0..i}" by auto
    then show ?thesis
      using interv_sum_list_conv_sum_set_nat[of "\<lambda>j. de ! j * p s ! j ! x" 0 "i + 1"] by simp
  qed
  have ds: "delta s' = de" by (simp add: s'_def)
  show ?thesis
    apply (rule exI[of _ s'])
    using run eq tri above lde acc sums ds by (simp add: s'_def)
qed

theorem update_psi_back_substitution_witness:
  "\<exists>s'. update_psi (Suc 0) example_state = Inr s'
     \<and> complex_of_real (gamma example_state ! 0) * delta s' ! 0 =
         alpha example_state ! 0 - (\<Sum>l = 0 + 1..Suc 0. beta example_state ! 0 ! l * delta s' ! l)
     \<and> psi s' ! 0 = psi example_state ! 0 + (\<Sum>j = 0..Suc 0. delta s' ! j * p example_state ! j ! 0)
     \<and> p s' = p example_state"
proof -
  have "\<exists>s'. update_psi (Suc 0) example_state = Inr s'
     \<and> (\<forall>j\<le>Suc 0. delta s' ! j =
           (alpha example_state ! j - (\<Sum>l = j + 1..Suc 0. beta example_state ! j ! l * delta s' ! l))
             / complex_of_real (gamma example_state ! j))
     \<and> (\<forall>j\<le>Suc 0. complex_of_real (gamma example_state ! j) * delta s' ! j =
           alpha example_state ! j - (\<Sum>l = j + 1..Suc 0. beta example_state ! j ! l * delta s' ! l))
     \<and> (\<forall>j>Suc 0. delta s' ! j = delta example_state ! j)
     \<and> length (delta s') = length (delta example_state)
     \<and> length (psi s') = length (psi example_state)
     \<and> (\<forall>x<length (psi example_state).
           psi s' ! x = psi example_state ! x + (\<Sum>j = 0..Suc 0. delta s' ! j * p example_state ! j ! x))
     \<and> alpha s' = alpha example_state \<and> beta s' = beta example_state
     \<and> gamma s' = gamma example_state \<and> p s' = p example_state"
    by (rule update_psi_back_substitution) (simp_all add: example_state_def le_Suc_eq all_conj_distrib)
  then obtain s' where "update_psi (Suc 0) example_state = Inr s'"
    and "\<forall>j\<le>Suc 0. complex_of_real (gamma example_state ! j) * delta s' ! j =
           alpha example_state ! j - (\<Sum>l = j + 1..Suc 0. beta example_state ! j ! l * delta s' ! l)"
    and "\<forall>x<length (psi example_state).
           psi s' ! x = psi example_state ! x + (\<Sum>j = 0..Suc 0. delta s' ! j * p example_state ! j ! x)"
    and "p s' = p example_state"
    by (elim exE conjE)
  moreover have "0 < length (psi example_state)" by (simp add: example_state_def)
  ultimately show ?thesis by (intro exI[of _ s']) simp
qed

lemma restart_eq:
  "restart self mat src s =
     (norm2 (fsub src (mat (psi s))),
      s\<lparr>p := (if prec self \<noteq> None then map (\<lambda>v. replicate (length v) 0) (p s) else p s),
        mmpsi := mat (psi s), r := fsub src (mat (psi s))\<rparr>)"
  by (simp add: restart_def calc_res_eq)

text \<open>
  C3, as amended. A call of \<open>restart\<close> recomputes \<open>mmpsi = A(psi)\<close> and
  \<open>r = src - mmpsi\<close>, returns the squared norm of the new \<open>r\<close> and does not modify \<open>psi\<close>.
  When a preconditioner is configured every direction vector \<open>p[j]\<close> is set to zero; when
  none is configured \<open>p\<close> is left as it is.
\<close>

theorem restart_effect:
  assumes "restart self mat src s = (n, s')"
  shows "mmpsi s' = mat (psi s) \<and> r s' = fsub src (mmpsi s') \<and> n = norm2 (r s')
       \<and> psi s' = psi s
       \<and> (prec self \<noteq> None \<longrightarrow>
            length (p s') = length (p s)
            \<and> (\<forall>j<length (p s). p s' ! j = replicate (length (p s ! j)) 0))
       \<and> (prec self = None \<longrightarrow> p s' = p s)"
  using assms by (auto simp: restart_eq)

theorem restart_effect_witness:
  "prec (example_fgcr\<lparr>prec := Some (\<lambda>m d v. v)\<rparr>) \<noteq> None
   \<and> p (snd (restart (example_fgcr\<lparr>prec := Some (\<lambda>m d v. v)\<rparr>) example_mat [1, 1] example_state)) ! 0
       = [0]
   \<and> p (snd (restart (example_fgcr\<lparr>prec := Some (\<lambda>m d v. v)\<rparr>) example_mat [1, 1] example_state)) ! 1
       = [0]
   \<and> psi (snd (restart (example_fgcr\<lparr>prec := Some (\<lambda>m d v. v)\<rparr>) example_mat [1, 1] example_state))
       = psi example_state"
proof -
  let ?c = "example_fgcr\<lparr>prec := Some (\<lambda>m d v. v)\<rparr>"
  obtain n s' where a: "restart ?c example_mat [1, 1] example_state = (n, s')"
    by (cases "restart ?c example_mat [1, 1] example_state")
  have b: "prec ?c \<noteq> None" by simp
  from restart_effect [OF a] b
  have "\<forall>j<length (p example_state). p s' ! j = replicate (length (p example_state ! j)) 0"
    and c: "psi s' = psi example_state"
    by blast+
  then have "p s' ! 0 = [0]" and "p s' ! 1 = [0]"
    by (simp_all add: example_state_def)
  with a b c show ?thesis by simp
qed

text \<open>
  C3 as stated fails: without a preconditioner \<open>restart\<close> leaves the direction vectors
  alone, here \<open>p[1] = [3]\<close>.
\<close>

theorem restart_zeroes_p_counterexample:
  "p (snd (restart example_fgcr example_mat [1, 1] example_state)) ! 1 ! 0 \<noteq> 0"
  by (simp add: restart_eq example_fgcr_def example_state_def)

lemma krylov_step_keeps:
  "krylov_step self mat i s = (ip, s1) \<Longrightarrow>
     psi s1 = psi s \<and> history s1 = history s \<and> delta s1 = delta s \<and> messages s1 = messages s"
  by (auto simp: krylov_step_def Let_def split: prod.splits)

lemma update_psi_keeps:
  "update_psi i s = Inr s' \<Longrightarrow>
     history s' = history s \<and> messages s' = messages s \<and> rsq s' = rsq s \<and> ssq s' = ssq s"
  by (auto simp: update_psi_def Let_def split: if_splits)

lemma restart_keeps:
  "restart self mat src s = (n, s') \<Longrightarrow>
     psi s' = psi s \<and> history s' = history s \<and> delta s' = delta s \<and> messages s' = messages s"
  by (auto simp: restart_def calc_res_eq)

lemma iteration_breakdown:
  assumes "restartlen self \<noteq> 0"
      and "gamma (snd (krylov_step self mat (k mod restartlen self) s)) ! (k mod restartlen self) = 0"
  shows "\<exists>s'. iteration self mat src k s = Break s' \<and> psi s' = psi s \<and> delta s' = delta s
            \<and> history s' = history s
            \<and> messages s' = messages s @ [Msg_breakdown (k mod restartlen self)]"
proof -
  obtain ip s1 where ks: "krylov_step self mat (k mod restartlen self) s = (ip, s1)"
    by (cases "krylov_step self mat (k mod restartlen self) s")
  with assms(2) have "gamma s1 ! (k mod restartlen self) = 0" by simp
  then show ?thesis
    using assms(1) ks krylov_step_keeps[OF ks] by (simp add: iteration_def Let_def)
qed

lemma iteration_continue_history:
  assumes "iteration self mat src k s = Continue s'"
  shows "length (history s') = Suc (length (history s))"
proof -
  obtain ip s1 where ks: "krylov_step self mat (k mod restartlen self) s = (ip, s1)"
    by (cases "krylov_step self mat (k mod restartlen self) s")
  note k1 = krylov_step_keeps[OF ks]
  show ?thesis
    using assms ks k1
    by (auto simp: iteration_def Let_def axpy_norm2_def
             split: if_splits sum.splits prod.splits
             dest!: update_psi_keeps restart_keeps)
qed

lemma iteration_continue_inner:
  assumes "iteration self mat src k s = Continue s'"
      and "k mod restartlen self + 1 \<noteq> restartlen self"
  shows "psi s' = psi s \<and> delta s' = delta s"
proof -
  obtain ip s1 where ks: "krylov_step self mat (k mod restartlen self) s = (ip, s1)"
    by (cases "krylov_step self mat (k mod restartlen self) s")
  note k1 = krylov_step_keeps[OF ks]
  show ?thesis
    using assms ks k1
    by (auto simp: iteration_def Let_def axpy_norm2_def
             split: if_splits sum.splits prod.splits dest!: update_psi_keeps)
qed

lemma state_at_history:
  "state_at self mat src k s0 = Some s \<Longrightarrow> length (history s) = length (history s0) + k"
proof (induction k arbitrary: s)
  case 0
  then show ?case by simp
next
  case (Suc k)
  then show ?case
    by (auto split: option.splits if_splits step.splits dest: iteration_continue_history)
qed

lemma inv_loop_state_at:
  "state_at self mat src k s0 = Some s \<Longrightarrow>
     inv_loop self mat src 0 s0 = inv_loop self mat src k s"
proof (induction k arbitrary: s)
  case 0
  then show ?case by simp
next
  case (Suc k)
  from Suc.prems obtain s1 where s1: "state_at self mat src k s0 = Some s1"
    and lt: "k < maxiter self" and it: "iteration self mat src k s1 = Continue s"
    by (auto split: option.splits if_splits step.splits)
  have "inv_loop self mat src k s1 = inv_loop self mat src (Suc k) s"
    using lt it by (subst inv_loop.simps) simp
  with Suc.IH[OF s1] show ?case by simp
qed

lemma state_at_cycle_start:
  "state_at self mat src (k0 + m) s0 = Some s \<Longrightarrow> k0 mod restartlen self = 0 \<Longrightarrow>
   m < restartlen self \<Longrightarrow>
   \<exists>sc. state_at self mat src k0 s0 = Some sc \<and> psi s = psi sc \<and> delta s = delta sc"
proof (induction m arbitrary: s)
  case 0
  then show ?case by simp
next
  case (Suc m)
  from Suc.prems(1) obtain s1 where s1: "state_at self mat src (k0 + m) s0 = Some s1"
    and it: "iteration self mat src (k0 + m) s1 = Continue s"
    by (auto split: option.splits if_splits step.splits)
  have "(k0 + m) mod restartlen self = m"
    using Suc.prems(2,3) by (metis Suc_lessD add_0 mod_add_left_eq mod_less)
  then have "(k0 + m) mod restartlen self + 1 \<noteq> restartlen self"
    using Suc.prems(3) by simp
  from iteration_continue_inner[OF it this] Suc.IH[OF s1 Suc.prems(2)] Suc.prems(3)
  show ?case by auto
qed

lemma inv_setup_start:
  "inv_setup self mat psi0 src = Inr s0 \<Longrightarrow> psi s0 = psi0 \<and> history s0 = []"
  by (auto simp: inv_setup_def restart_def calc_res_eq Let_def split: if_splits)

text \<open>
  C2. When breakdown occurs at iteration \<open>k\<close> of \<open>inv(psi, src)\<close>, the call returns
  normally, \<open>self.history\<close> has exactly \<open>k\<close> entries, one for each iteration completed
  before, and the last message printed is the breakdown message for \<open>i = k mod rlen\<close>.
\<close>

theorem breakdown_soft_stop:
  assumes "breakdown_at self mat psi0 src k"
  shows "\<exists>s'. inv_fgcr self mat psi0 src = Inr s' \<and> length (history s') = k
            \<and> last (messages s') = Msg_breakdown (k mod restartlen self)"
proof -
  from assms obtain s0 s where s0: "inv_setup self mat psi0 src = Inr s0"
    and s: "state_at self mat src k s0 = Some s"
    and lt: "k < maxiter self" and nz: "restartlen self \<noteq> 0"
    and g: "gamma (snd (krylov_step self mat (k mod restartlen self) s)) ! (k mod restartlen self) = 0"
    by (auto simp: breakdown_at_def split: sum.splits option.splits)
  from iteration_breakdown[OF nz g, of src] obtain s' where
    it: "iteration self mat src k s = Break s'" and h: "history s' = history s"
    and m: "messages s' = messages s @ [Msg_breakdown (k mod restartlen self)]"
    by blast
  have "inv_loop self mat src k s = Inr s'"
    using lt it by (subst inv_loop.simps) simp
  then have "inv_fgcr self mat psi0 src = Inr s'"
    using s0 inv_loop_state_at[OF s] by (simp add: inv_fgcr_def)
  moreover have "length (history s') = k"
    using h state_at_history[OF s] inv_setup_start[OF s0] by simp
  ultimately show ?thesis using m by simp
qed

text \<open>
  C10. When breakdown occurs at iteration \<open>k\<close>, inner iteration \<open>i = k mod rlen\<close> of its
  cycle, the call returns with \<open>psi\<close> (and \<open>delta\<close>, which only \<open>update_psi\<close> writes)
  exactly as at the start of that cycle, iteration \<open>k - i\<close>: the state left by the update
  and restart at the last cycle boundary, or the state after the set-up in the first
  cycle, where \<open>psi\<close> is the value passed in.
\<close>

theorem breakdown_keeps_psi:
  assumes "breakdown_at self mat psi0 src k"
  shows "\<exists>s0 sc s'. inv_setup self mat psi0 src = Inr s0
            \<and> state_at self mat src (k - k mod restartlen self) s0 = Some sc
            \<and> inv_fgcr self mat psi0 src = Inr s'
            \<and> psi s' = psi sc \<and> delta s' = delta sc
            \<and> (k < restartlen self \<longrightarrow> psi s' = psi0)"
proof -
  from assms obtain s0 s where s0: "inv_setup self mat psi0 src = Inr s0"
    and s: "state_at self mat src k s0 = Some s"
    and lt: "k < maxiter self" and nz: "restartlen self \<noteq> 0"
    and g: "gamma (snd (krylov_step self mat (k mod restartlen self) s)) ! (k mod restartlen self) = 0"
    by (auto simp: breakdown_at_def split: sum.splits option.splits)
  from iteration_breakdown[OF nz g, of src] obtain s' where
    it: "iteration self mat src k s = Break s'" and ps: "psi s' = psi s" and ds: "delta s' = delta s"
    by blast
  have "inv_loop self mat src k s = Inr s'"
    using lt it by (subst inv_loop.simps) simp
  then have run: "inv_fgcr self mat psi0 src = Inr s'"
    using s0 inv_loop_state_at[OF s] by (simp add: inv_fgcr_def)
  let ?k0 = "k - k mod restartlen self"
  have a: "state_at self mat src (?k0 + k mod restartlen self) s0 = Some s"
    using s by simp
  have b: "?k0 mod restartlen self = 0"
    by (simp add: minus_mod_eq_mult_div)
  have c: "k mod restartlen self < restartlen self"
    using nz by simp
  from state_at_cycle_start[OF a b c]
  obtain sc where sc: "state_at self mat src ?k0 s0 = Some sc"
    and e: "psi s = psi sc" "delta s = delta sc"
    by (elim exE conjE)
  have "psi s' = psi0" if "k < restartlen self"
    using that sc e ps inv_setup_start[OF s0] by simp
  with s0 sc run ps ds e show ?thesis by auto
qed

lemma example_setup:
  "inv_setup example_fgcr example_mat [0, 0] [1, 1] =
     Inr \<lparr>psi = [0, 0], history = [], messages = [],
          alpha = [0, 0], beta = [[0, 0], [0, 0]], gamma = [0, 0], delta = [0, 0],
          r = [1, 1], mmpsi = [0, 0], p = [[0, 0], [0, 0]], mmp = [[0, 0], [0, 0]],
          r2 = 2, ssq = 2, rsq = 1 / 50\<rparr>"
  by (simp add: inv_setup_def example_fgcr_def example_mat_def restart_def calc_res_def
      axpy_norm2_def fadd_def fscale_def norm2_def lattice_def Let_def numeral_2_eq_2 power2_eq_square)

lemma example_first:
  "iteration example_fgcr example_mat [1, 1] 0
     \<lparr>psi = [0, 0], history = [], messages = [],
          alpha = [0, 0], beta = [[0, 0], [0, 0]], gamma = [0, 0], delta = [0, 0],
          r = [1, 1], mmpsi = [0, 0], p = [[0, 0], [0, 0]], mmp = [[0, 0], [0, 0]],
          r2 = 2, ssq = 2, rsq = 1 / 50\<rparr> =
   Continue \<lparr>psi = [0, 0], history = [1], messages = [],
          alpha = [1, 0], beta = [[0, 0], [0, 0]], gamma = [1, 0], delta = [0, 0],
          r = [0, 1], mmpsi = [0, 0], p = [[1, 1], [0, 0]], mmp = [[1, 0], [0, 0]],
          r2 = 1, ssq = 2, rsq = 1 / 50\<rparr>"
  by (simp add: iteration_def krylov_step_def example_fgcr_def example_mat_def
      innerProductNorm2_def inner_product_def norm2_def write_column_def fdiv_def
      axpy_norm2_def fadd_def fscale_def Let_def)

lemma example_second:
  "gamma (snd (krylov_step example_fgcr example_mat (Suc 0)
      \<lparr>psi = [0, 0], history = [1], messages = [],
          alpha = [1, 0], beta = [[0, 0], [0, 0]], gamma = [1, 0], delta = [0, 0],
          r = [0, 1], mmpsi = [0, 0], p = [[1, 1], [0, 0]], mmp = [[1, 0], [0, 0]],
          r2 = 1, ssq = 2, rsq = 1 / 50\<rparr>)) ! Suc 0 = 0"
  by (simp add: krylov_step_def example_fgcr_def example_mat_def
      innerProductNorm2_def inner_product_def norm2_def write_column_def fsub_def fscale_def Let_def)

lemma example_breakdown: "breakdown_at example_fgcr example_mat [0, 0] [1, 1] (Suc 0)"
  unfolding breakdown_at_def
  by (simp add: example_setup example_first example_second)
    (simp add: example_fgcr_def)

theorem breakdown_soft_stop_witness:
  "breakdown_at example_fgcr example_mat [0, 0] [1, 1] (Suc 0)
   \<and> (\<exists>s'. inv_fgcr example_fgcr example_mat [0, 0] [1, 1] = Inr s' \<and> length (history s') = Suc 0)"
  using breakdown_soft_stop [OF example_breakdown] example_breakdown by blast

theorem breakdown_keeps_psi_witness:
  "breakdown_at example_fgcr example_mat [0, 0] [1, 1] (Suc 0)
   \<and> (\<exists>s'. inv_fgcr example_fgcr example_mat [0, 0] [1, 1] = Inr s' \<and> psi s' = [0, 0])"
proof -
  have "Suc 0 < restartlen example_fgcr" by (simp add: example_fgcr_def)
  with breakdown_keeps_psi [OF example_breakdown] example_breakdown show ?thesis by blast
qed

section \<open>Properties of the coarsening\<close>

lemma negate_blocks_flip:
  "negate_block (n div 2) n 0 (n div 2) (negate_block 0 (n div 2) (n div 2) n L) = flip_quadrants n L"
  by (auto simp: negate_block_def flip_quadrants_def fun_eq_iff)

lemma negate_blocks_flip_Suc:
  "negate_block (n div Suc (Suc 0)) n 0 (n div Suc (Suc 0))
     (negate_block 0 (n div Suc (Suc 0)) (n div Suc (Suc 0)) n L) = flip_quadrants n L"
  using negate_blocks_flip[of n L] by (simp add: numeral_2_eq_2)

lemma length4: "length xs = 4 \<Longrightarrow> \<exists>a b c d. xs = [a, b, c, d]"
  by (auto simp: eval_nat_numeral length_Suc_conv)

lemma comm_links_stored:
  assumes "length A = 9" and "length dirs = 4" and "\<not> herm \<longrightarrow> nbasis (A ! 0) mod 2 = 0"
  shows "\<exists>A'. comm_links G A (zip dirs (replicate 4 1)) herm = Inr A' \<and> length A' = 9
     \<and> (\<forall>q<4. A' ! (q + 4) =
           assign (A ! (q + 4))
             (adj (cshift G (if herm then A ! q else flip_quadrants (nbasis (A ! 0)) (A ! q))
                     (dirs ! q) (- 1))))
     \<and> (\<forall>q<4. A' ! q = A ! q) \<and> A' ! 8 = A ! 8"
proof -
  from assms(2) obtain a b c d where dirs: "dirs = [a, b, c, d]"
    using length4 by blast
  show ?thesis
  proof (cases herm)
    case True
    then show ?thesis
      using assms(1) by (simp add: comm_links_def dirs eval_nat_numeral enumerate_eq_zip All_less_Suc Let_def)
  next
    case False
    then show ?thesis
      using assms(1,3)
      by (simp add: comm_links_def dirs eval_nat_numeral enumerate_eq_zip All_less_Suc Let_def negate_blocks_flip_Suc)
  qed
qed

lemma flip_quadrants_entries:
  "lgrid (flip_quadrants n L) = lgrid L \<and> nbasis (flip_quadrants n L) = nbasis L
   \<and> ent (flip_quadrants n L) x i j =
       (if (i < n div 2 \<and> n div 2 \<le> j \<and> j < n) \<or> (n div 2 \<le> i \<and> i < n \<and> j < n div 2)
        then - ent L x i j else ent L x i j)"
  by (simp add: flip_quadrants_def)

text \<open>
  C5. \<open>create_links\<close> calls \<open>comm_links\<close> when \<open>savelinks\<close> is set, with the nine links and
  the four forward pairs \<open>(mu, +1)\<close>. For every forward index \<open>q\<close> with direction \<open>mu\<close> the
  backward link \<open>A[q + 4]\<close> then holds, at every site \<open>x\<close> and in row \<open>i\<close> and column \<open>j\<close>,
  the complex conjugate of the entry in row \<open>j\<close> and column \<open>i\<close> at \<open>x\<close> of the field \<open>X\<close>
  shifted by \<open>-1\<close> in direction \<open>mu\<close>; its grid and its matrix size are kept. With
  \<open>hermitian\<close> the field \<open>X\<close> is the forward link \<open>A[q]\<close> itself. Without it, and only then,
  \<open>X\<close> is \<open>A[q]\<close> on the same grid with the entries of the upper right and the lower left
  quadrant block negated, each once, and all other entries kept. The forward links and
  the self link are not changed.
\<close>

theorem comm_links_backward:
  assumes "length A = 9" and "length dirs = 4" and "\<not> herm \<longrightarrow> nbasis (A ! 0) mod 2 = 0"
  shows "\<exists>A'. comm_links G A (zip dirs (replicate 4 1)) herm = Inr A' \<and> length A' = 9
     \<and> (\<forall>q<4. \<exists>X.
           (if herm then X = A ! q
            else lgrid X = lgrid (A ! q) \<and> nbasis X = nbasis (A ! q)
               \<and> (\<forall>x i j. ent X x i j =
                     (if (i < nbasis (A ! 0) div 2 \<and> nbasis (A ! 0) div 2 \<le> j \<and> j < nbasis (A ! 0))
                         \<or> (nbasis (A ! 0) div 2 \<le> i \<and> i < nbasis (A ! 0) \<and> j < nbasis (A ! 0) div 2)
                      then - ent (A ! q) x i j else ent (A ! q) x i j)))
           \<and> (\<forall>x i j. ent (A' ! (q + 4)) x i j = cnj (ent (cshift G X (dirs ! q) (- 1)) x j i))
           \<and> lgrid (A' ! (q + 4)) = lgrid (A ! (q + 4))
           \<and> nbasis (A' ! (q + 4)) = nbasis (A ! (q + 4)))
     \<and> (\<forall>q<4. A' ! q = A ! q) \<and> A' ! 8 = A ! 8"
proof -
  from comm_links_stored[OF assms, of G] obtain A' where
    run: "comm_links G A (zip dirs (replicate 4 1)) herm = Inr A'" and len: "length A' = 9"
    and st: "\<forall>q<4. A' ! (q + 4) =
           assign (A ! (q + 4))
             (adj (cshift G (if herm then A ! q else flip_quadrants (nbasis (A ! 0)) (A ! q))
                     (dirs ! q) (- 1)))"
    and keep: "\<forall>q<4. A' ! q = A ! q" "A' ! 8 = A ! 8"
    by (elim exE conjE)
  have bwd: "\<exists>X.
           (if herm then X = A ! q
            else lgrid X = lgrid (A ! q) \<and> nbasis X = nbasis (A ! q)
               \<and> (\<forall>x i j. ent X x i j =
                     (if (i < nbasis (A ! 0) div 2 \<and> nbasis (A ! 0) div 2 \<le> j \<and> j < nbasis (A ! 0))
                         \<or> (nbasis (A ! 0) div 2 \<le> i \<and> i < nbasis (A ! 0) \<and> j < nbasis (A ! 0) div 2)
                      then - ent (A ! q) x i j else ent (A ! q) x i j)))
           \<and> (\<forall>x i j. ent (A' ! (q + 4)) x i j = cnj (ent (cshift G X (dirs ! q) (- 1)) x j i))
           \<and> lgrid (A' ! (q + 4)) = lgrid (A ! (q + 4))
           \<and> nbasis (A' ! (q + 4)) = nbasis (A ! (q + 4))" if q: "q < 4" for q
  proof -
    let ?X = "if herm then A ! q else flip_quadrants (nbasis (A ! 0)) (A ! q)"
    have s: "A' ! (q + 4) = assign (A ! (q + 4)) (adj (cshift G ?X (dirs ! q) (- 1)))"
      using st q by simp
    have e: "\<forall>x i j. ent (A' ! (q + 4)) x i j = cnj (ent (cshift G ?X (dirs ! q) (- 1)) x j i)"
      by (simp add: s assign_def adj_def)
    have g: "lgrid (A' ! (q + 4)) = lgrid (A ! (q + 4))"
            "nbasis (A' ! (q + 4)) = nbasis (A ! (q + 4))"
      by (simp_all add: s assign_def)
    show ?thesis
    proof (cases herm)
      case True
      with e g show ?thesis by (intro exI[of _ "A ! q"]) simp
    next
      case False
      with e g flip_quadrants_entries[of "nbasis (A ! 0)" "A ! q"] show ?thesis
        by (intro exI[of _ "flip_quadrants (nbasis (A ! 0)) (A ! q)"]) simp
    qed
  qed
  show ?thesis
    using run len bwd keep by (intro exI[of _ A']) simp
qed

text \<open>
  C8. \<open>recreate_links(A, fmat, basis)\<close> never behaves like \<open>create_links\<close> with default
  parameters: its call of \<open>create_links\<close> lacks the required argument \<open>params\<close>, so every
  call raises \<open>TypeError\<close>.
\<close>

theorem recreate_links_raises: "recreate_links G A fmat basis = Inl TypeError"
  by (simp add: recreate_links_def call_create_links_def)

lemma setup_masks_5d_general:
  assumes "nd f_grid = 5"
  shows "\<exists>e. setup_masks f_grid c_grid = Inl e"
  using assms
  by (auto simp: setup_masks_def dirs_of_def Let_def eval_nat_numeral split: sum.splits)

lemma setup_masks_4d:
  assumes "nd f_grid \<noteq> 5" and "4 \<le> nd f_grid" and "nd c_grid = nd f_grid"
  shows "\<exists>block. block_size f_grid c_grid = Inr block \<and>
     setup_masks f_grid c_grid =
       Inr (\<lambda>x. 1, make_mask (block_even block), (\<lambda>x. 1 - make_mask (block_even block) x),
            [make_mask (forward_np block 0), make_mask (forward_np block 1),
             make_mask (forward_np block 2), make_mask (forward_np block 3),
             make_mask (backward_np block 0), make_mask (backward_np block 1),
             make_mask (backward_np block 2), make_mask (backward_np block 3)])"
  using assms
  by (auto simp: setup_masks_def dirs_of_def nd_def block_size_def Let_def eval_nat_numeral)

lemma column_written_length [simp]: "length (column_written A q i vec n) = length A"
  by (simp add: column_written_def)

lemma column_written_nbasis_nth [simp]:
  "k < length A \<Longrightarrow> nbasis (column_written A q i vec n ! k) = nbasis (A ! k)"
  by (cases "k = q") (simp_all add: column_written_def)

lemma column_written_lgrid_nth [simp]:
  "k < length A \<Longrightarrow> lgrid (column_written A q i vec n ! k) = lgrid (A ! k)"
  by (cases "k = q") (simp_all add: column_written_def)

lemma column_written_nbasis [simp]:
  "map nbasis (column_written A q i vec n) = map nbasis A"
  by (rule nth_equalityI) simp_all

lemma column_written_zero: "column_written A q i vec 0 = A"
  by (simp add: column_written_def)


lemma set_column_eq:
  "q < length A \<Longrightarrow> i < nbasis (A ! q) \<Longrightarrow> nbasis (A ! q) = n \<Longrightarrow>
     set_column A q i vec n = Inr (column_written A q i vec n)"
  by (simp add: set_column_def column_written_def)

lemma set_entry_step:
  assumes "q < length A" "m < nbasis (A ! q)" "i < nbasis (A ! q)" "\<And>x. scal x = vec x m"
  shows "set_entry (column_written A q i vec m) q m i scal = Inr (column_written A q i vec (Suc m))"
proof -
  have "(\<lambda>x j' i'. if i' = i \<and> j' = m then scal x
                    else if i' = i \<and> j' < m then vec x j' else ent (A ! q) x j' i')
        = (\<lambda>x j' i'. if i' = i \<and> j' < Suc m then vec x j' else ent (A ! q) x j' i')"
    using assms(4) by (auto simp: fun_eq_iff less_Suc_eq)
  then show ?thesis
    using assms(1-3) by (simp add: set_entry_def column_written_def cong: if_cong)
qed

lemma coarsen_masked_from:
  "q < length A \<Longrightarrow> i < nbasis (A ! q) \<Longrightarrow> m + length xs \<le> nbasis (A ! q) \<Longrightarrow>
   (\<And>k x. k < length xs \<Longrightarrow> masked_inner_product G msk (xs ! k) F x = vec x (m + k)) \<Longrightarrow>
   coarsen_masked G msk F q i (enumerate m xs) (column_written A q i vec m)
     = Inr (column_written A q i vec (m + length xs))"
proof (induction xs arbitrary: m)
  case Nil
  then show ?case by simp
next
  case (Cons v vs)
  have step: "set_entry (column_written A q i vec m) q m i (masked_inner_product G msk v F)
                = Inr (column_written A q i vec (Suc m))"
    using Cons.prems(1-3) Cons.prems(4)[of 0] by (intro set_entry_step) simp_all
  have "coarsen_masked G msk F q i (enumerate (Suc m) vs) (column_written A q i vec (Suc m))
          = Inr (column_written A q i vec (Suc m + length vs))"
    using Cons.prems(1-3) Cons.prems(4)[of "Suc k" for k] by (intro Cons.IH) simp_all
  with step show ?case by simp
qed

lemma coarsen_masked_eq:
  assumes "q < length A" "i < nbasis (A ! q)" "nbasis (A ! q) = length basis"
  shows "coarsen_masked G msk F q i (enumerate 0 basis) A
           = Inr (column_written A q i (\<lambda>x j. masked_inner_product G msk (basis ! j) F x) (length basis))"
  using coarsen_masked_from[of q A i 0 basis G msk F "\<lambda>x j. masked_inner_product G msk (basis ! j) F x"]
        assms
  by (simp add: column_written_zero)


lemma shape_kept:
  assumes "length A' = length A" "map nbasis A' = map nbasis A" "\<forall>k<length A. nbasis (A ! k) = n"
  shows "\<forall>k<length A'. nbasis (A' ! k) = n"
proof (intro allI impI)
  fix k assume "k < length A'"
  then have "nbasis (A' ! k) = map nbasis A' ! k" by simp
  also have "\<dots> = nbasis (A ! k)" using assms(1,2) \<open>k < length A'\<close> by simp
  finally show "nbasis (A' ! k) = n" using assms(1,3) \<open>k < length A'\<close> by simp
qed

lemma coarsen_hops_ok:
  "\<forall>(q, mu, fb)\<in>set xs. q < length A \<Longrightarrow> \<forall>k<length A. nbasis (A ! k) = length basis \<Longrightarrow>
   i < length basis \<Longrightarrow>
   \<exists>A'. coarsen_hops G False basis dirmasks dl Mvr i xs A = Inr A'
        \<and> length A' = length A \<and> map nbasis A' = map nbasis A"
proof (induction xs arbitrary: A)
  case Nil
  then show ?case by simp
next
  case (Cons a xs)
  obtain q mu fb where a: "a = (q, mu, fb)" by (cases a)
  let ?A1 = "column_written A q i
               (\<lambda>x j. masked_inner_product G (dirmasks ! q) (basis ! j) (Mvr ! q) x) (length basis)"
  have q: "q < length A" using Cons.prems(1) a by simp
  have step: "coarsen_masked G (dirmasks ! q) (Mvr ! q) q i (enumerate 0 basis) A = Inr ?A1"
    using q Cons.prems(2,3) by (intro coarsen_masked_eq) simp_all
  have "\<exists>A'. coarsen_hops G False basis dirmasks dl Mvr i xs ?A1 = Inr A'
        \<and> length A' = length ?A1 \<and> map nbasis A' = map nbasis ?A1"
    using Cons.prems by (intro Cons.IH) auto
  with step a show ?case by simp
qed

lemma enumerate_index:
  "(q, y) \<in> set (enumerate 0 xs) \<Longrightarrow> q < length xs \<and> y = xs ! q"
  by (auto simp: in_set_enumerate_eq)

lemma coarsen_vector_ok:
  assumes "length dirdisps \<le> length (fst st)" "selflink < length (fst st)"
      and "\<forall>k<length (fst st). nbasis (fst st ! k) = length basis" "i < length basis"
  shows "\<exists>st'. coarsen_vector G fmat False basis dirdisps dirmasks dl fl em om selflink i vr st = Inr st'
        \<and> length (fst st') = length (fst st) \<and> map nbasis (fst st') = map nbasis (fst st)"
proof -
  let ?Mvr = "apply_hop fmat vr (enumerate 0 dirdisps) (snd st)"
  have "\<forall>(q, mu, fb)\<in>set (enumerate 0 dirdisps). q < length (fst st)"
    using assms(1) by (auto dest!: enumerate_index)
  from coarsen_hops_ok[OF this assms(3,4), of G dirmasks dl ?Mvr]
  obtain A1 where A1: "coarsen_hops G False basis dirmasks dl ?Mvr i (enumerate 0 dirdisps) (fst st) = Inr A1"
    and len: "length A1 = length (fst st)" and nb: "map nbasis A1 = map nbasis (fst st)"
    by (elim exE conjE)
  have sh: "\<forall>k<length A1. nbasis (A1 ! k) = length basis"
    using shape_kept[OF len nb assms(3)] .
  let ?tmp = "fplus G (fmul G em (M fmat (fmul G em vr))) (fmul G om (M fmat (fmul G om vr)))"
  have "set_column A1 selflink i (project G ?tmp basis) (length basis)
          = Inr (column_written A1 selflink i (project G ?tmp basis) (length basis))"
    using assms(2,4) len sh by (intro set_column_eq) simp_all
  with A1 len nb show ?thesis
    by (simp add: coarsen_vector_def Let_def)
qed

lemma basis_loop_ok:
  "\<forall>(i, vr)\<in>set ys. i < length basis \<Longrightarrow> length dirdisps \<le> length (fst st) \<Longrightarrow>
   selflink < length (fst st) \<Longrightarrow> \<forall>k<length (fst st). nbasis (fst st ! k) = length basis \<Longrightarrow>
   \<exists>st'. basis_loop G fmat False basis dirdisps dirmasks dl fl em om selflink ys st = Inr st'
        \<and> length (fst st') = length (fst st) \<and> map nbasis (fst st') = map nbasis (fst st)"
proof (induction ys arbitrary: st)
  case Nil
  then show ?case by simp
next
  case (Cons a ys)
  obtain i vr where a: "a = (i, vr)" by (cases a)
  have i: "i < length basis" using Cons.prems(1) a by simp
  from coarsen_vector_ok[OF Cons.prems(2,3,4) i, of G fmat dirmasks dl fl em om vr]
  obtain st1 where s1: "coarsen_vector G fmat False basis dirdisps dirmasks dl fl em om selflink i vr st = Inr st1"
    and len: "length (fst st1) = length (fst st)" and nb: "map nbasis (fst st1) = map nbasis (fst st)"
    by (elim exE conjE)
  have sh: "\<forall>k<length (fst st1). nbasis (fst st1 ! k) = length basis"
    using shape_kept[OF len nb Cons.prems(4)] .
  have "\<exists>st'. basis_loop G fmat False basis dirdisps dirmasks dl fl em om selflink ys st1 = Inr st'
        \<and> length (fst st') = length (fst st1) \<and> map nbasis (fst st') = map nbasis (fst st1)"
    using Cons.prems(1,2,3) len sh by (intro Cons.IH) auto
  with s1 a len nb show ?case by simp
qed

lemma update_ent_kept:
  assumes "q < length A"
  shows "length (A[q := (A ! q)\<lparr>ent := f\<rparr>]) = length A
       \<and> map nbasis (A[q := (A ! q)\<lparr>ent := f\<rparr>]) = map nbasis A"
proof -
  have "map nbasis (A[q := (A ! q)\<lparr>ent := f\<rparr>]) = (map nbasis A)[q := map nbasis A ! q]"
    using assms by (simp add: map_update)
  then show ?thesis by simp
qed


lemma set_column_kept:
  "set_column A q i vec n = Inr A' \<Longrightarrow> length A' = length A \<and> map nbasis A' = map nbasis A"
  using update_ent_kept[of q A] by (auto simp: set_column_def split: if_splits)

lemma set_column_error:
  "set_column A q i vec n = Inl e \<Longrightarrow> e = IndexError \<or> e = ValueError"
  by (auto simp: set_column_def split: if_splits)

lemma set_entry_kept:
  "set_entry A q j i scal = Inr A' \<Longrightarrow> length A' = length A \<and> map nbasis A' = map nbasis A"
  using update_ent_kept[of q A] by (auto simp: set_entry_def split: if_splits)

lemma set_entry_error:
  "set_entry A q j i scal = Inl e \<Longrightarrow> e = IndexError \<or> e = ValueError"
  by (auto simp: set_entry_def split: if_splits)

lemma coarsen_masked_kept:
  "coarsen_masked G msk F q i xs A = Inr A' \<Longrightarrow> length A' = length A \<and> map nbasis A' = map nbasis A"
proof (induction xs arbitrary: A)
  case Nil
  then show ?case by simp
next
  case (Cons a xs)
  obtain j vl where a: "a = (j, vl)" by (cases a)
  from Cons.prems a obtain A1 where
    s: "set_entry A q j i (masked_inner_product G msk vl F) = Inr A1"
    and r: "coarsen_masked G msk F q i xs A1 = Inr A'"
    by (auto split: sum.splits)
  from set_entry_kept[OF s] Cons.IH[OF r] show ?case by simp
qed

lemma coarsen_masked_error:
  "coarsen_masked G msk F q i xs A = Inl e \<Longrightarrow> e = IndexError \<or> e = ValueError"
proof (induction xs arbitrary: A)
  case Nil
  then show ?case by simp
next
  case (Cons a xs)
  obtain j vl where a: "a = (j, vl)" by (cases a)
  show ?case
  proof (cases "set_entry A q j i (masked_inner_product G msk vl F)")
    case (Inl e')
    with Cons.prems a have "e' = e" by simp
    with set_entry_error[OF Inl] show ?thesis by simp
  next
    case (Inr A1)
    with Cons.prems a have "coarsen_masked G msk F q i xs A1 = Inl e" by simp
    then show ?thesis by (rule Cons.IH)
  qed
qed

lemma hop_step_kept:
  assumes "(if lut
            then set_column A q i vec n
            else coarsen_masked G msk F q i xs A) = Inr A1"
  shows "length A1 = length A \<and> map nbasis A1 = map nbasis A"
proof (cases lut)
  case True
  with assms show ?thesis using set_column_kept[of A q i vec n A1] by simp
next
  case False
  with assms show ?thesis using coarsen_masked_kept[of G msk F q i xs A A1] by simp
qed

lemma hop_step_error:
  assumes "(if lut
            then set_column A q i vec n
            else coarsen_masked G msk F q i xs A) = Inl e"
  shows "e = IndexError \<or> e = ValueError"
proof (cases lut)
  case True
  with assms show ?thesis using set_column_error[of A q i vec n e] by simp
next
  case False
  with assms show ?thesis using coarsen_masked_error[of G msk F q i xs A e] by simp
qed

lemma coarsen_hops_kept:
  "coarsen_hops G lut basis dirmasks dirluts Mvr i xs A = Inr A'
      \<Longrightarrow> length A' = length A \<and> map nbasis A' = map nbasis A"
proof (induction xs arbitrary: A)
  case Nil
  then show ?case by simp
next
  case (Cons a xs)
  obtain q mu fb where a: "a = (q, mu, fb)" by (cases a)
  from Cons.prems a obtain A1 where
    s: "(if lut
         then set_column A q i (project_using_lut G (Mvr ! q) basis (dirluts ! q)) (length basis)
         else coarsen_masked G (dirmasks ! q) (Mvr ! q) q i (enumerate 0 basis) A) = Inr A1"
    and r: "coarsen_hops G lut basis dirmasks dirluts Mvr i xs A1 = Inr A'"
    by (simp split: sum.splits)
  from hop_step_kept[OF s] Cons.IH[OF r] show ?case by simp
qed

lemma coarsen_hops_error:
  "coarsen_hops G lut basis dirmasks dirluts Mvr i xs A = Inl e \<Longrightarrow> e = IndexError \<or> e = ValueError"
proof (induction xs arbitrary: A)
  case Nil
  then show ?case by simp
next
  case (Cons a xs)
  obtain q mu fb where a: "a = (q, mu, fb)" by (cases a)
  let ?step = "if lut
         then set_column A q i (project_using_lut G (Mvr ! q) basis (dirluts ! q)) (length basis)
         else coarsen_masked G (dirmasks ! q) (Mvr ! q) q i (enumerate 0 basis) A"
  show ?case
  proof (cases ?step)
    case (Inl e')
    with Cons.prems a have "e' = e" by simp
    with hop_step_error[OF Inl] show ?thesis by simp
  next
    case (Inr A1)
    with Cons.prems a have "coarsen_hops G lut basis dirmasks dirluts Mvr i xs A1 = Inl e" by simp
    then show ?thesis by (rule Cons.IH)
  qed
qed

lemma coarsen_vector_kept:
  assumes "coarsen_vector G fmat lut basis dirdisps dirmasks dirluts fulllut em om selflink i vr st = Inr st'"
  shows "length (fst st') = length (fst st) \<and> map nbasis (fst st') = map nbasis (fst st)"
proof -
  let ?Mvr = "apply_hop fmat vr (enumerate 0 dirdisps) (snd st)"
  from assms obtain A1 vec where
    h: "coarsen_hops G lut basis dirmasks dirluts ?Mvr i (enumerate 0 dirdisps) (fst st) = Inr A1"
    and c: "set_column A1 selflink i vec (length basis) = Inr (fst st')"
    by (auto simp: coarsen_vector_def Let_def split: sum.splits)
  from coarsen_hops_kept[OF h] set_column_kept[OF c] show ?thesis by simp
qed

lemma coarsen_vector_error:
  assumes "coarsen_vector G fmat lut basis dirdisps dirmasks dirluts fulllut em om selflink i vr st = Inl e"
  shows "e = IndexError \<or> e = ValueError"
proof -
  let ?Mvr = "apply_hop fmat vr (enumerate 0 dirdisps) (snd st)"
  show ?thesis
  proof (cases "coarsen_hops G lut basis dirmasks dirluts ?Mvr i (enumerate 0 dirdisps) (fst st)")
    case (Inl e')
    with assms have "e' = e" by (simp add: coarsen_vector_def Let_def)
    with coarsen_hops_error[OF Inl] show ?thesis by simp
  next
    case (Inr A1)
    with assms obtain vec where "set_column A1 selflink i vec (length basis) = Inl e"
      by (auto simp: coarsen_vector_def Let_def split: sum.splits)
    then show ?thesis by (rule set_column_error)
  qed
qed

lemma basis_loop_kept:
  "basis_loop G fmat lut basis dirdisps dirmasks dirluts fulllut em om selflink ys st = Inr st'
      \<Longrightarrow> length (fst st') = length (fst st) \<and> map nbasis (fst st') = map nbasis (fst st)"
proof (induction ys arbitrary: st)
  case Nil
  then show ?case by simp
next
  case (Cons a ys)
  obtain i vr where a: "a = (i, vr)" by (cases a)
  from Cons.prems a obtain st1 where
    s: "coarsen_vector G fmat lut basis dirdisps dirmasks dirluts fulllut em om selflink i vr st = Inr st1"
    and r: "basis_loop G fmat lut basis dirdisps dirmasks dirluts fulllut em om selflink ys st1 = Inr st'"
    by (simp split: sum.splits)
  from coarsen_vector_kept[OF s] Cons.IH[OF r] show ?case by simp
qed

lemma basis_loop_error:
  "basis_loop G fmat lut basis dirdisps dirmasks dirluts fulllut em om selflink ys st = Inl e
      \<Longrightarrow> e = IndexError \<or> e = ValueError"
proof (induction ys arbitrary: st)
  case Nil
  then show ?case by simp
next
  case (Cons a ys)
  obtain i vr where a: "a = (i, vr)" by (cases a)
  show ?case
  proof (cases "coarsen_vector G fmat lut basis dirdisps dirmasks dirluts fulllut em om selflink i vr st")
    case (Inl e')
    with Cons.prems a have "e' = e" by simp
    with coarsen_vector_error[OF Inl] show ?thesis by simp
  next
    case (Inr st1)
    with Cons.prems a have
      "basis_loop G fmat lut basis dirdisps dirmasks dirluts fulllut em om selflink ys st1 = Inl e"
      by simp
    then show ?thesis by (rule Cons.IH)
  qed
qed

lemma fill_dirmasks_error:
  "fill_dirmasks n block ds dm = Inl e \<Longrightarrow> e = IndexError"
  by (induction ds arbitrary: dm) (auto simp: Let_def split: if_splits)

lemma setup_masks_error:
  assumes "setup_masks f_grid c_grid = Inl e"
  shows "e = IndexError \<or> e = ValueError"
proof (cases "block_size f_grid c_grid")
  case (Inl e')
  with assms have "e' = e" by (simp add: setup_masks_def Let_def)
  with Inl show ?thesis by (auto simp: block_size_def split: if_splits)
next
  case (Inr block)
  with assms obtain n ds dm where "fill_dirmasks n block ds dm = Inl e"
    by (auto simp: setup_masks_def Let_def split: sum.splits)
  then show ?thesis by (simp add: fill_dirmasks_error)
qed

lemma compute_links_kept:
  assumes "compute_links G A fmat basis prm = Inr A'"
  shows "length A' = length A \<and> map nbasis A' = map nbasis A"
proof -
  from assms obtain lut dd dm dl fl em om sl Mvr st where
    "basis_loop G fmat lut basis dd dm dl fl em om sl (enumerate 0 basis) (A, Mvr) = Inr st"
    and "A' = fst st"
    unfolding compute_links_def Let_def
    by (auto split: if_splits sum.splits prod.splits)
  with basis_loop_kept[of G fmat lut basis dd dm dl fl em om sl "enumerate 0 basis" "(A, Mvr)" st]
  show ?thesis by simp
qed

lemma compute_links_assert:
  "compute_links G A fmat basis prm = Inl (AssertionError n) \<longleftrightarrow>
     n = 30 \<and> hermitian prm \<and> \<not> savelinks prm"
proof (cases "hermitian prm \<and> \<not> savelinks prm")
  case True
  then show ?thesis by (auto simp: compute_links_def)
next
  case False
  have "compute_links G A fmat basis prm \<noteq> Inl (AssertionError n)"
  proof
    assume a: "compute_links G A fmat basis prm = Inl (AssertionError n)"
    show False
    proof (cases "setup_masks (grid_of G (basis ! 0)) (lgrid (A ! 0))")
      case (Inl e)
      with a False have "e = AssertionError n \<or> IndexError = AssertionError n"
        by (auto simp: compute_links_def Let_def split: if_splits)
      with setup_masks_error[OF Inl] show False by auto
    next
      case (Inr m)
      obtain one ev od dm where m: "m = (one, ev, od, dm)" by (cases m) auto
      from a False Inr m obtain lut dd dl fl sl Mvr where
        "basis = [] \<or> A = [] \<or>
         basis_loop G fmat lut basis dd dm dl fl ev od sl (enumerate 0 basis) (A, Mvr)
           = Inl (AssertionError n)"
        by (auto simp: compute_links_def Let_def split: if_splits sum.splits)
      moreover have "compute_links G A fmat basis prm = Inl IndexError" if "basis = [] \<or> A = []"
        using that False by (auto simp: compute_links_def)
      ultimately show False
        using a basis_loop_error[of G fmat lut basis dd dm dl fl ev od sl "enumerate 0 basis"
                "(A, Mvr)" "AssertionError n"]
        by auto
    qed
  qed
  with False show ?thesis by simp
qed

lemma dirs_of_length: "length (zip (dirs_of k) (replicate 4 (1::int))) = 4"
  by (simp add: dirs_of_def)

lemma comm_links_parity:
  assumes "length ddf = 4"
  shows "comm_links G A ddf herm = Inl (AssertionError 159) \<longleftrightarrow>
           length A = 9 \<and> \<not> herm \<and> nbasis (A ! 0) mod 2 \<noteq> 0"
proof -
  from assms obtain a b c d where ddf: "ddf = [a, b, c, d]"
    using length4 by blast
  obtain a1 a2 b1 b2 c1 c2 d1 d2 where
    e: "a = (a1, a2)" "b = (b1, b2)" "c = (c1, c2)" "d = (d1, d2)"
    by (cases a, cases b, cases c, cases d) auto
  show ?thesis
  proof (cases "length A = 9")
    case False
    then show ?thesis by (simp add: comm_links_def ddf)
  next
    case True
    then show ?thesis
      by (cases herm; cases "nbasis (A ! 0) mod 2 = 0")
         (simp_all add: comm_links_def ddf e eval_nat_numeral enumerate_eq_zip Let_def)
  qed
qed

lemma comm_links_not_30: "comm_links G A ddf herm \<noteq> Inl (AssertionError 30)"
proof -
  have "comm_loop G herm xs B \<noteq> Inl (AssertionError 30)" for xs B
  proof (induction xs arbitrary: B)
    case Nil
    show ?case by simp
  next
    case (Cons x xs)
    obtain q mu fb where x: "x = (q, mu, fb)" by (cases x)
    show ?case
      using Cons.IH unfolding x
      by (cases herm) (auto simp: Let_def)
  qed
  then show ?thesis by (simp add: comm_links_def)
qed

text \<open>
  C7, as amended. \<open>create_links\<close> fails with the assertion of its line 30 exactly for the
  calls with \<open>hermitian\<close> set and \<open>savelinks\<close> not set. The assertion on the parity of the
  basis size stands in \<open>comm_links\<close>, which runs only with \<open>savelinks\<close>: it fails exactly
  for the calls with \<open>hermitian\<close> not set and \<open>savelinks\<close> set in which the computation of
  the links completes, \<open>A\<close> has nine entries and \<open>nbasis\<close> of \<open>A[0]\<close> is odd. Without
  \<open>savelinks\<close> no assertion other than that of line 30 can fail, whatever the parity.
\<close>

theorem create_links_assertions:
  "(create_links G A fmat basis prm = Inl (AssertionError 30) \<longleftrightarrow>
       hermitian prm \<and> \<not> savelinks prm)
   \<and> (create_links G A fmat basis prm = Inl (AssertionError 159) \<longleftrightarrow>
       \<not> hermitian prm \<and> savelinks prm \<and> length A = 9 \<and> nbasis (A ! 0) mod 2 \<noteq> 0
       \<and> (\<exists>A'. compute_links G A fmat basis prm = Inr A'))
   \<and> (\<not> savelinks prm \<longrightarrow> (\<forall>n. n \<noteq> 30 \<longrightarrow> create_links G A fmat basis prm \<noteq> Inl (AssertionError n)))"
proof (cases "compute_links G A fmat basis prm")
  case (Inl e)
  then have c: "create_links G A fmat basis prm = Inl e"
    by (simp add: create_links_def)
  show ?thesis
    using compute_links_assert[of G A fmat basis prm] Inl c by auto
next
  case (Inr A')
  note kept = compute_links_kept[OF Inr]
  have n30: "\<not> (hermitian prm \<and> \<not> savelinks prm)"
    using compute_links_assert[of G A fmat basis prm 30] Inr by auto
  have z: "nbasis (A' ! 0) = nbasis (A ! 0)" if "length A = 9"
  proof -
    have l: "0 < length A'" "0 < length A" using kept that by simp_all
    have "nbasis (A' ! 0) = map nbasis A' ! 0" using l(1) by (simp only: nth_map)
    also have "\<dots> = map nbasis A ! 0" using kept by simp
    also have "\<dots> = nbasis (A ! 0)" using l(2) by (simp only: nth_map)
    finally show ?thesis .
  qed
  show ?thesis
  proof (cases "savelinks prm")
    case False
    then have "create_links G A fmat basis prm = Inr A'"
      using Inr by (simp add: create_links_def)
    then show ?thesis using False n30 by simp
  next
    case True
    let ?ddf = "zip (dirs_of (nd (grid_of G (basis ! 0)))) (replicate 4 (1::int))"
    have c: "create_links G A fmat basis prm = comm_links G A' ?ddf (hermitian prm)"
      using Inr True by (simp add: create_links_def)
    show ?thesis
      using comm_links_parity[OF dirs_of_length, of G A' _ "hermitian prm"]
            comm_links_not_30[of G A' ?ddf "hermitian prm"] True n30 kept z Inr
      unfolding c by auto
  qed
qed





lemma enumerate_basis_index: "\<forall>(i, vr)\<in>set (enumerate 0 basis). i < length basis"
  by (auto dest!: enumerate_index)



lemma compute_links_ok:
  assumes "\<not> (hermitian prm \<and> \<not> savelinks prm)" "basis \<noteq> []" "9 \<le> length A"
      and sh: "\<forall>k<length A. nbasis (A ! k) = length basis"
      and "nd (grid_of G (basis ! 0)) \<noteq> 5" "4 \<le> nd (grid_of G (basis ! 0))"
      and "nd (lgrid (A ! 0)) = nd (grid_of G (basis ! 0))" "\<not> uselut prm"
  shows "\<exists>A'. compute_links G A fmat basis prm = Inr A'"
proof -
  let ?fg = "grid_of G (basis ! 0)"
  from setup_masks_4d[OF assms(5,6,7)] obtain one ev od dm where
    m: "setup_masks ?fg (lgrid (A ! 0)) = Inr (one, ev, od, dm)"
    by blast
  let ?dirs = "dirs_of (nd ?fg)"
  let ?dd = "if savelinks prm then zip ?dirs (replicate 4 (1::int))
             else zip (?dirs @ ?dirs) (replicate 4 1 @ replicate 4 (- 1))"
  let ?sl = "length (zip (?dirs @ ?dirs) (replicate 4 (1::int) @ replicate 4 (- 1)))"
  let ?Mvr = "replicate ?sl (basis ! 0)"
  let ?fl = "lookup_table G (lgrid (A ! 0)) one"
  have sl: "?sl = 8" by (simp add: dirs_of_def)
  have dd: "length ?dd \<le> 8" by (simp add: dirs_of_def)
  have "\<exists>st'. basis_loop G fmat False basis ?dd dm [] ?fl ev od ?sl (enumerate 0 basis) (A, ?Mvr) = Inr st'
        \<and> length (fst st') = length (fst (A, ?Mvr)) \<and> map nbasis (fst st') = map nbasis (fst (A, ?Mvr))"
  proof (rule basis_loop_ok)
    show "\<forall>(i, vr)\<in>set (enumerate 0 basis). i < length basis"
      by (rule enumerate_basis_index)
    show "length ?dd \<le> length (fst (A, ?Mvr))" using dd assms(3) by simp
    show "?sl < length (fst (A, ?Mvr))" using sl assms(3) by simp
    show "\<forall>k<length (fst (A, ?Mvr)). nbasis (fst (A, ?Mvr) ! k) = length basis" using sh by simp
  qed
  then obtain st' where
    "basis_loop G fmat False basis ?dd dm [] ?fl ev od ?sl (enumerate 0 basis) (A, ?Mvr) = Inr st'"
    by blast
  moreover have "A \<noteq> []" using assms(3) by auto
  ultimately show ?thesis
    using m assms(1,2,8) by (simp add: compute_links_def Let_def)
qed

lemma example_compute_ok:
  assumes "\<not> (hermitian prm \<and> \<not> savelinks prm)" "\<not> uselut prm"
  shows "\<exists>A'. compute_links (example_gpt [4, 4, 4, 4]) (example_links [2, 2, 2, 2] 1) example_fmat [1] prm
               = Inr A'"
  using assms
  by (intro compute_links_ok) (simp_all add: example_gpt_def example_links_def nd_def)

lemma example_shift_back:
  "ent (cshift example_shift_gpt X 0 (- 1)) [0, 0, 0, 0] 1 0 = ent X [1, 0, 0, 0] 1 0"
  if "lgrid X = \<lparr>ldimensions = [2, 2, 2, 2]\<rparr>"
  using that by (simp add: example_shift_gpt_def example_gpt_def)

theorem comm_links_backward_witness:
  "(\<exists>A'. comm_links example_shift_gpt example_dense_links (zip [0, 1, 2, 3] (replicate 4 1)) False
            = Inr A'
        \<and> ent (A' ! 4) [0, 0, 0, 0] 0 1 = Complex (- 11) 1)
   \<and> (\<exists>A'. comm_links example_shift_gpt example_dense_links (zip [0, 1, 2, 3] (replicate 4 1)) True
            = Inr A'
        \<and> ent (A' ! 4) [0, 0, 0, 0] 0 1 = Complex 11 (- 1))"
proof -
  have a: "length example_dense_links = 9" by (simp add: example_dense_links_def)
  have b: "length [0, 1, 2, 3::nat] = 4" by simp
  have z: "example_dense_links ! 0 =
             \<lparr>lgrid = \<lparr>ldimensions = [2, 2, 2, 2]\<rparr>, nbasis = 2,
              ent = (\<lambda>x i j. Complex (real (x ! 0 + 10 * i + 0)) (real (j + 1)))\<rparr>"
    unfolding example_dense_links_def by (subst nth_map) simp_all
  have q0: "(0::nat) < 4" by simp
  have c: "\<not> False \<longrightarrow> nbasis (example_dense_links ! 0) mod 2 = 0" by (simp add: z)
  from comm_links_backward[OF a b c, of example_shift_gpt]
  obtain A1 where r1: "comm_links example_shift_gpt example_dense_links
                         (zip [0, 1, 2, 3] (replicate 4 1)) False = Inr A1"
    and f1: "\<forall>q<4. \<exists>X.
           (if False then X = example_dense_links ! q
            else lgrid X = lgrid (example_dense_links ! q) \<and> nbasis X = nbasis (example_dense_links ! q)
               \<and> (\<forall>x i j. ent X x i j =
                     (if (i < nbasis (example_dense_links ! 0) div 2
                            \<and> nbasis (example_dense_links ! 0) div 2 \<le> j
                            \<and> j < nbasis (example_dense_links ! 0))
                         \<or> (nbasis (example_dense_links ! 0) div 2 \<le> i
                            \<and> i < nbasis (example_dense_links ! 0)
                            \<and> j < nbasis (example_dense_links ! 0) div 2)
                      then - ent (example_dense_links ! q) x i j
                      else ent (example_dense_links ! q) x i j)))
           \<and> (\<forall>x i j. ent (A1 ! (q + 4)) x i j
                  = cnj (ent (cshift example_shift_gpt X ([0, 1, 2, 3] ! q) (- 1)) x j i))
           \<and> lgrid (A1 ! (q + 4)) = lgrid (example_dense_links ! (q + 4))
           \<and> nbasis (A1 ! (q + 4)) = nbasis (example_dense_links ! (q + 4))"
    by (elim exE conjE)
  from f1[rule_format, OF q0] obtain X where
    g: "lgrid X = lgrid (example_dense_links ! 0)"
    and x: "\<forall>x i j. ent X x i j =
                     (if (i < nbasis (example_dense_links ! 0) div 2
                            \<and> nbasis (example_dense_links ! 0) div 2 \<le> j
                            \<and> j < nbasis (example_dense_links ! 0))
                         \<or> (nbasis (example_dense_links ! 0) div 2 \<le> i
                            \<and> i < nbasis (example_dense_links ! 0)
                            \<and> j < nbasis (example_dense_links ! 0) div 2)
                      then - ent (example_dense_links ! 0) x i j
                      else ent (example_dense_links ! 0) x i j)"
    and e: "\<forall>x i j. ent (A1 ! (0 + 4)) x i j
                  = cnj (ent (cshift example_shift_gpt X ([0, 1, 2, 3] ! 0) (- 1)) x j i)"
    by auto
  have "ent (A1 ! 4) [0, 0, 0, 0] 0 1 = cnj (ent (cshift example_shift_gpt X 0 (- 1)) [0, 0, 0, 0] 1 0)"
    using e by simp
  also have "\<dots> = cnj (ent X [1, 0, 0, 0] 1 0)"
    using example_shift_back[of X] g z by simp
  also have "\<dots> = Complex (- 11) 1"
    by (simp add: x z complex_eq_iff)
  finally have v1: "ent (A1 ! 4) [0, 0, 0, 0] 0 1 = Complex (- 11) 1" .
  have c': "\<not> True \<longrightarrow> nbasis (example_dense_links ! 0) mod 2 = 0" by simp
  from comm_links_backward[OF a b c', of example_shift_gpt]
  obtain A2 where r2: "comm_links example_shift_gpt example_dense_links
                         (zip [0, 1, 2, 3] (replicate 4 1)) True = Inr A2"
    and f2: "\<forall>q<4. \<exists>X.
           (if True then X = example_dense_links ! q
            else lgrid X = lgrid (example_dense_links ! q) \<and> nbasis X = nbasis (example_dense_links ! q)
               \<and> (\<forall>x i j. ent X x i j =
                     (if (i < nbasis (example_dense_links ! 0) div 2
                            \<and> nbasis (example_dense_links ! 0) div 2 \<le> j
                            \<and> j < nbasis (example_dense_links ! 0))
                         \<or> (nbasis (example_dense_links ! 0) div 2 \<le> i
                            \<and> i < nbasis (example_dense_links ! 0)
                            \<and> j < nbasis (example_dense_links ! 0) div 2)
                      then - ent (example_dense_links ! q) x i j
                      else ent (example_dense_links ! q) x i j)))
           \<and> (\<forall>x i j. ent (A2 ! (q + 4)) x i j
                  = cnj (ent (cshift example_shift_gpt X ([0, 1, 2, 3] ! q) (- 1)) x j i))
           \<and> lgrid (A2 ! (q + 4)) = lgrid (example_dense_links ! (q + 4))
           \<and> nbasis (A2 ! (q + 4)) = nbasis (example_dense_links ! (q + 4))"
    by (elim exE conjE)
  from f2[rule_format, OF q0] have
    e2: "\<forall>x i j. ent (A2 ! (0 + 4)) x i j
           = cnj (ent (cshift example_shift_gpt (example_dense_links ! 0) ([0, 1, 2, 3] ! 0) (- 1)) x j i)"
    by auto
  have "ent (A2 ! 4) [0, 0, 0, 0] 0 1
          = cnj (ent (cshift example_shift_gpt (example_dense_links ! 0) 0 (- 1)) [0, 0, 0, 0] 1 0)"
    using e2 by simp
  also have "\<dots> = cnj (ent (example_dense_links ! 0) [1, 0, 0, 0] 1 0)"
    using example_shift_back[of "example_dense_links ! 0"] z by simp
  also have "\<dots> = Complex 11 (- 1)"
    by (simp add: z complex_eq_iff)
  finally have v2: "ent (A2 ! 4) [0, 0, 0, 0] 0 1 = Complex 11 (- 1)" .
  from r1 v1 r2 v2 show ?thesis by blast
qed


theorem create_links_assertions_witness:
  "create_links (example_gpt [4, 4, 4, 4]) (example_links [2, 2, 2, 2] 1) example_fmat [1]
       \<lparr>hermitian = True, savelinks = False, uselut = False\<rparr> = Inl (AssertionError 30)
   \<and> create_links (example_gpt [4, 4, 4, 4]) (example_links [2, 2, 2, 2] 1) example_fmat [1]
       \<lparr>hermitian = False, savelinks = True, uselut = False\<rparr> = Inl (AssertionError 159)"
  using create_links_assertions [of "example_gpt [4, 4, 4, 4]" "example_links [2, 2, 2, 2] 1"
          example_fmat "[1]" "\<lparr>hermitian = True, savelinks = False, uselut = False\<rparr>"]
        create_links_assertions [of "example_gpt [4, 4, 4, 4]" "example_links [2, 2, 2, 2] 1"
          example_fmat "[1]" "\<lparr>hermitian = False, savelinks = True, uselut = False\<rparr>"]
        example_compute_ok [of "\<lparr>hermitian = False, savelinks = True, uselut = False\<rparr>"]
  by (simp add: example_links_def)

text \<open>
  C7 as stated fails: with \<open>hermitian\<close> and \<open>savelinks\<close> both not set and an odd basis size
  the call completes without any failure.
\<close>

theorem create_links_odd_basis_counterexample:
  "nbasis (example_links [2, 2, 2, 2] 1 ! 0) mod 2 = 1
   \<and> \<not> isl (create_links (example_gpt [4, 4, 4, 4]) (example_links [2, 2, 2, 2] 1) example_fmat [1]
              \<lparr>hermitian = False, savelinks = False, uselut = False\<rparr>)"
proof -
  from example_compute_ok [of "\<lparr>hermitian = False, savelinks = False, uselut = False\<rparr>"]
  obtain A' where "compute_links (example_gpt [4, 4, 4, 4]) (example_links [2, 2, 2, 2] 1)
      example_fmat [1] \<lparr>hermitian = False, savelinks = False, uselut = False\<rparr> = Inr A'"
    by auto
  then show ?thesis by (simp add: create_links_def example_links_def)
qed

text \<open>
  C9. For a fine grid of five dimensions the directions are \<open>1, 2, 3, 4\<close> and the masks
  are stored under the direction instead of the position in \<open>dirdisps\<close>: the store into
  \<open>dirmasks[4 + 4]\<close> is out of range for the eight masks, and \<open>create_links\<close> raises
  \<open>IndexError\<close>.
\<close>

theorem create_links_5d_index_error:
  "create_links (example_gpt [8, 4, 4, 4, 4]) (example_links [8, 2, 2, 2, 2] 2) example_fmat [1]
       \<lparr>hermitian = False, savelinks = True, uselut = True\<rparr> = Inl IndexError"
proof -
  have "setup_masks \<lparr>ldimensions = [8, 4, 4, 4, 4]\<rparr> \<lparr>ldimensions = [8, 2, 2, 2, 2]\<rparr> = Inl IndexError"
    by (simp add: setup_masks_def dirs_of_def nd_def block_size_def Let_def eval_nat_numeral)
  then show ?thesis
    by (simp add: create_links_def compute_links_def example_gpt_def example_links_def Let_def)
qed

end
